theory Spec2Isabelle
  imports Complex_Main "HOL-Library.AList" "HOL-Library.Multiset"
begin

section \<open>The active-learning pipeline of \<^verbatim>\<open>active_learning_pipeline.py\<close>\<close>

text \<open>
  The three stages \<^verbatim>\<open>stage_ingest\<close>, \<^verbatim>\<open>stage_select\<close> and \<^verbatim>\<open>stage_prep\<close> are embedded as
  functions over an explicit picture of the directories they read and write.

  Conventions of the embedding:
  \<^item> Python and numpy floats (confidences, thresholds, \<^verbatim>\<open>val_split\<close>) are real numbers,
    so every comparison and subtraction is exact;
  \<^item> a directory is the collection of the file names in it (with the bytes of each file
    where the stage looks at them), a dictionary is an association list in insertion
    order, read through \<^const>\<open>map_of\<close> and written through \<^const>\<open>AList.update\<close>;
  \<^item> library calls whose result the code only passes on (\<^verbatim>\<open>hashlib.sha1\<close>,
    \<^verbatim>\<open>model.predict\<close>, \<^verbatim>\<open>random.shuffle\<close>) are parameters of the model;
  \<^item> an exception raised inside the \<^verbatim>\<open>try\<close> block of \<^verbatim>\<open>stage_select\<close> is a value: every
    call that can fail there carries its outcome for the image at hand.
\<close>

subsection \<open>File names\<close>

definition IMAGE_EXTS :: "string list" where
  "IMAGE_EXTS = [''.jpg'', ''.jpeg'', ''.png'', ''.bmp'', ''.webp'']"

text \<open>\<^verbatim>\<open>str.lower\<close> on the ASCII letters.\<close>

definition lower_char :: "char \<Rightarrow> char" where
  "lower_char c =
     (let n = (of_char c :: nat)
      in if 65 \<le> n \<and> n \<le> 90 then char_of (n + 32) else c)"

definition lower :: "string \<Rightarrow> string" where
  "lower s = map lower_char s"

text \<open>\<^verbatim>\<open>str.rfind\<close> of one character: the last index where it stands, if any.\<close>

fun rfind :: "char \<Rightarrow> string \<Rightarrow> nat option" where
  "rfind c [] = None"
| "rfind c (x # xs) =
     (case rfind c xs of
        Some i \<Rightarrow> Some (Suc i)
      | None \<Rightarrow> if x = c then Some 0 else None)"

text \<open>
  \<^verbatim>\<open>Path.suffix\<close>, \<^verbatim>\<open>Path.stem\<close> and \<^verbatim>\<open>Path.with_suffix\<close> on the final component of a path:
  the suffix starts at the last dot, unless that dot is the first or the last character.
\<close>

definition suffix :: "string \<Rightarrow> string" where
  "suffix name =
     (case rfind (CHR ''.'') name of
        None \<Rightarrow> []
      | Some i \<Rightarrow> if 0 < i \<and> i < length name - 1 then drop i name else [])"

definition stem :: "string \<Rightarrow> string" where
  "stem name = take (length name - length (suffix name)) name"


text \<open>The test \<^verbatim>\<open>p.suffix.lower() in IMAGE_EXTS\<close>.\<close>

definition is_image :: "string \<Rightarrow> bool" where
  "is_image name = (lower (suffix name) \<in> set IMAGE_EXTS)"

subsection \<open>Triage: \<^verbatim>\<open>stage_select\<close>\<close>

datatype exn = IndexError | Raised string

record detection =
  cls :: int
  conf :: real
  xywhn :: "real \<times> real \<times> real \<times> real"

text \<open>
  One entry of the unlabeled directory, with what the outside world does for it during
  the run: \<open>predict\<close> is the result of \<^verbatim>\<open>model.predict(...)[0].boxes\<close> (an exception, \<^verbatim>\<open>None\<close>,
  or the detections), and \<open>copy_exn\<close>, \<open>write_exn\<close>, \<open>unlink_exn\<close> say whether
  \<^verbatim>\<open>safe_copy\<close>, \<^verbatim>\<open>write_yolo_labels\<close> and \<^verbatim>\<open>img.unlink\<close> raise for this image. A call
  that raises leaves the directories as they were. The conversions by \<^verbatim>\<open>to_numpy\<close> belong
  to \<open>predict\<close>; of a detection the stage reads the confidence, and passes the class and
  the box on to the label file, whose text is not modelled.
\<close>

record image =
  img_name :: string
  predict :: "exn + detection list option"
  copy_exn :: "exn option"
  write_exn :: "exn option"
  unlink_exn :: "exn option"

text \<open>
  The reason column of a log row. \<open>Uncertain mx mean mg\<close> stands for the formatted string
  \<^verbatim>\<open>uncertain(max=..,mean=..,margin=..)\<close>, \<open>Confident mx\<close> for \<^verbatim>\<open>confident(max=..)\<close> and
  \<open>Repr e\<close> for \<^verbatim>\<open>repr(e)\<close>.
\<close>

datatype reason_str = Literal string | Uncertain real real real | Confident real | Repr exn

record row =
  rfile :: string
  route :: string
  reason :: reason_str

text \<open>The three pool directories (as sets of names), the \<^verbatim>\<open>stats\<close> counters and \<^verbatim>\<open>rows\<close>.\<close>

record select_state =
  UNLABELED_DIR :: "string set"
  TO_LABEL_DIR :: "string set"
  AUTOLABELED_DIR :: "string set"
  scanned :: nat
  to_label :: nat
  autolabeled :: nat
  errors :: nat
  rows :: "row list"

text \<open>\<^verbatim>\<open>float(confs.max()) if len(confs) else 0.0\<close> and \<^verbatim>\<open>float(confs.mean()) if len(confs) else 0.0\<close>.\<close>

definition max_conf_of :: "real list \<Rightarrow> real" where
  "max_conf_of confs = (case confs of [] \<Rightarrow> 0 | c # cs \<Rightarrow> fold max cs c)"

definition mean_conf_of :: "real list \<Rightarrow> real" where
  "mean_conf_of confs = (if confs = [] then 0 else sum_list confs / real (length confs))"

text \<open>
  \<^verbatim>\<open>sorted_confs = sorted(confs, reverse=True)\<close>,
  \<^verbatim>\<open>margin = sorted_confs[0] - (sorted_confs[1] if len(sorted_confs) > 1 else 0.0)\<close>;
  indexing an empty list raises.
\<close>

definition margin_of :: "real list \<Rightarrow> exn + real" where
  "margin_of confs =
     (let sorted_confs = rev (sort confs)
      in case sorted_confs of
           [] \<Rightarrow> Inl IndexError
         | c0 # rest \<Rightarrow> Inr (c0 - (case rest of [] \<Rightarrow> 0 | c1 # _ \<Rightarrow> c1)))"

text \<open>
  \<^verbatim>\<open>uncertain = (max_conf <= conf_low) or (conf_low < max_conf <= conf_high) or (margin < 0.10)\<close>
\<close>

definition uncertain :: "real \<Rightarrow> real \<Rightarrow> real \<Rightarrow> real \<Rightarrow> bool" where
  "uncertain conf_low conf_high max_conf margin =
     (max_conf \<le> conf_low \<or> (conf_low < max_conf \<and> max_conf \<le> conf_high) \<or> margin < 0.10)"

text \<open>
  The collapsed predicate, as the specification words it:
  \<^verbatim>\<open>max_conf <= conf_high OR margin < 0.10\<close>.
\<close>

definition uncertain_collapsed :: "real \<Rightarrow> real \<Rightarrow> real \<Rightarrow> bool" where
  "uncertain_collapsed conf_high max_conf margin = (max_conf \<le> conf_high \<or> margin < 0.10)"

text \<open>
  The block the source writes three times (no detections, the defensive \<^verbatim>\<open>boxes is None\<close>
  branch, the uncertain branch): copy to \<^verbatim>\<open>TO_LABEL_DIR\<close>, count, log, unlink. The result
  carries the exception that left the block, with the state as it was when it was raised.
\<close>

definition move_to_label :: "image \<Rightarrow> reason_str \<Rightarrow> select_state \<Rightarrow> select_state \<times> exn option" where
  "move_to_label img rsn s =
     (case copy_exn img of
        Some e \<Rightarrow> (s, Some e)
      | None \<Rightarrow>
          let s1 = s\<lparr>TO_LABEL_DIR := insert (img_name img) (TO_LABEL_DIR s),
                     to_label := to_label s + 1,
                     rows := rows s @ [\<lparr>rfile = img_name img, route = ''to_label'', reason = rsn\<rparr>]\<rparr>
          in (case unlink_exn img of
                Some e \<Rightarrow> (s1, Some e)
              | None \<Rightarrow> (s1\<lparr>UNLABELED_DIR := UNLABELED_DIR s1 - {img_name img}\<rparr>, None)))"

text \<open>The confident branch: copy, write the label file, count, log, unlink.\<close>

definition auto_label :: "image \<Rightarrow> real \<Rightarrow> select_state \<Rightarrow> select_state \<times> exn option" where
  "auto_label img max_conf s =
     (case copy_exn img of
        Some e \<Rightarrow> (s, Some e)
      | None \<Rightarrow>
          let s1 = s\<lparr>AUTOLABELED_DIR := insert (img_name img) (AUTOLABELED_DIR s)\<rparr>
          in (case write_exn img of
                Some e \<Rightarrow> (s1, Some e)
              | None \<Rightarrow>
                  let s2 = s1\<lparr>AUTOLABELED_DIR :=
                                insert (stem (img_name img) @ ''.txt'') (AUTOLABELED_DIR s1),
                              autolabeled := autolabeled s1 + 1,
                              rows := rows s1 @ [\<lparr>rfile = img_name img, route = ''autolabeled'',
                                                  reason = Confident max_conf\<rparr>]\<rparr>
                  in (case unlink_exn img of
                        Some e \<Rightarrow> (s2, Some e)
                      | None \<Rightarrow>
                          (s2\<lparr>UNLABELED_DIR := UNLABELED_DIR s2 - {img_name img}\<rparr>, None))))"

text \<open>The body of the \<^verbatim>\<open>try\<close> block for one image.\<close>

definition try_body :: "real \<Rightarrow> real \<Rightarrow> image \<Rightarrow> select_state \<Rightarrow> select_state \<times> exn option" where
  "try_body conf_low conf_high img s =
     (case predict img of
        Inl e \<Rightarrow> (s, Some e)
      | Inr boxes \<Rightarrow>
          let det_count = (case boxes of None \<Rightarrow> 0 | Some ds \<Rightarrow> length ds)
          in if det_count = 0 then move_to_label img (Literal ''no_detections'') s
             else (case boxes of
                     None \<Rightarrow> move_to_label img (Literal ''no_detections'') s
                   | Some ds \<Rightarrow>
                       let confs = map conf ds;
                           max_conf = max_conf_of confs;
                           mean_conf = mean_conf_of confs
                       in (case margin_of confs of
                             Inl e \<Rightarrow> (s, Some e)
                           | Inr margin \<Rightarrow>
                               if uncertain conf_low conf_high max_conf margin
                               then move_to_label img (Uncertain max_conf mean_conf margin) s
                               else auto_label img max_conf s)))"

text \<open>One turn of the loop: count the image as scanned, run the body, catch what it raised.\<close>

definition process :: "real \<Rightarrow> real \<Rightarrow> image \<Rightarrow> select_state \<Rightarrow> select_state" where
  "process conf_low conf_high img s =
     (case try_body conf_low conf_high img (s\<lparr>scanned := scanned s + 1\<rparr>) of
        (s1, None) \<Rightarrow> s1
      | (s1, Some e) \<Rightarrow>
          s1\<lparr>errors := errors s1 + 1,
             rows := rows s1 @ [\<lparr>rfile = img_name img, route = ''error'', reason = Repr e\<rparr>]\<rparr>)"

text \<open>
  \<^verbatim>\<open>stage_select\<close>: \<open>listing\<close> is the sorted content of \<^verbatim>\<open>UNLABELED_DIR\<close>, \<open>to_lab\<close> and \<open>auto_lab\<close> are
  the two destination pools before the run. The result holds the pools after the run,
  the returned \<^verbatim>\<open>stats\<close> and the rows handed to \<^verbatim>\<open>save_log\<close>.
\<close>

definition stage_select ::
  "real \<Rightarrow> real \<Rightarrow> image list \<Rightarrow> string set \<Rightarrow> string set \<Rightarrow> select_state" where
  "stage_select conf_low conf_high listing to_lab auto_lab =
     fold (process conf_low conf_high)
       (filter (\<lambda>p. is_image (img_name p)) listing)
       \<lparr>UNLABELED_DIR = set (map img_name listing), TO_LABEL_DIR = to_lab, AUTOLABELED_DIR = auto_lab,
        scanned = 0, to_label = 0, autolabeled = 0, errors = 0, rows = []\<rparr>"

text \<open>
  What one image contributes, whatever the state it is processed in: the exception, if
  any, that the \<^verbatim>\<open>try\<close> block raises for it, and the rows it appends to the log.
\<close>

definition empty_state :: select_state where
  "empty_state =
     \<lparr>UNLABELED_DIR = {}, TO_LABEL_DIR = {}, AUTOLABELED_DIR = {},
      scanned = 0, to_label = 0, autolabeled = 0, errors = 0, rows = []\<rparr>"

definition raised :: "real \<Rightarrow> real \<Rightarrow> image \<Rightarrow> exn option" where
  "raised conf_low conf_high img = snd (try_body conf_low conf_high img empty_state)"

definition log_rows :: "real \<Rightarrow> real \<Rightarrow> image \<Rightarrow> row list" where
  "log_rows conf_low conf_high img = rows (process conf_low conf_high img empty_state)"

subsection \<open>Ingest: \<^verbatim>\<open>stage_ingest\<close>\<close>

type_synonym bytes = string

text \<open>
  The loop state: the unlabeled directory as the association of file names to bytes (a copy
  onto an existing name replaces the bytes), the dictionary \<^verbatim>\<open>seen_hashes\<close> from digest to
  stored name, and \<^verbatim>\<open>new_paths\<close>.
\<close>

record ingest_state =
  unlabeled_files :: "(string \<times> bytes) list"
  seen_hashes :: "(string \<times> string) list"
  new_paths :: "string list"

text \<open>
  The loop body for one entry \<open>ip\<close> (name and bytes) of \<^verbatim>\<open>INCOMING_IMG\<close>; \<open>sha1_of_file\<close> gives
  the hex digest of the bytes.
\<close>

definition ingest_one :: "(bytes \<Rightarrow> string) \<Rightarrow> string \<times> bytes \<Rightarrow> ingest_state \<Rightarrow> ingest_state" where
  "ingest_one sha1_of_file ip s =
     (if \<not> is_image (fst ip) then s
      else let h = sha1_of_file (snd ip)
           in if h \<in> fst ` set (seen_hashes s) then s
              else s\<lparr>unlabeled_files := AList.update (fst ip) (snd ip) (unlabeled_files s),
                     seen_hashes := AList.update h (fst ip) (seen_hashes s),
                     new_paths := new_paths s @ [fst ip]\<rparr>)"

text \<open>
  \<^verbatim>\<open>stage_ingest\<close>: \<open>incoming\<close> is the sorted content of \<^verbatim>\<open>INCOMING_IMG\<close> (after the frames of
  the videos were written there), \<open>unlabeled\<close> the unlabeled directory before the run and
  \<open>hash_index\<close> the content of \<^verbatim>\<open>hash_index.json\<close>, \<open>None\<close> when the file does not exist. In
  the result, \<open>seen_hashes\<close> is what the run writes back to \<^verbatim>\<open>hash_index.json\<close>.
\<close>

definition stage_ingest ::
  "(bytes \<Rightarrow> string) \<Rightarrow> (string \<times> bytes) list \<Rightarrow> (string \<times> bytes) list \<Rightarrow>
     (string \<times> string) list option \<Rightarrow> ingest_state" where
  "stage_ingest sha1_of_file incoming unlabeled hash_index =
     fold (ingest_one sha1_of_file) incoming
       \<lparr>unlabeled_files = unlabeled,
        seen_hashes = (case hash_index of None \<Rightarrow> [] | Some idx \<Rightarrow> idx),
        new_paths = []\<rparr>"

subsection \<open>Dataset assembly: \<^verbatim>\<open>stage_prep\<close>\<close>






subsection \<open>Sample data for the closed instances\<close>

definition det :: "real \<Rightarrow> detection" where
  "det c = \<lparr>cls = 0, conf = c, xywhn = (1/2, 1/2, 1/4, 1/4)\<rparr>"

definition img_ok :: "string \<Rightarrow> detection list option \<Rightarrow> image" where
  "img_ok n boxes =
     \<lparr>img_name = n, predict = Inr boxes, copy_exn = None, write_exn = None, unlink_exn = None\<rparr>"

definition img_bad :: "string \<Rightarrow> exn \<Rightarrow> image" where
  "img_bad n e =
     \<lparr>img_name = n, predict = Inl e, copy_exn = None, write_exn = None, unlink_exn = None\<rparr>"

section \<open>Properties of the triage\<close>

subsection \<open>The margin\<close>

lemma margin_of_single: "margin_of [c] = Inr c"
  by (simp add: margin_of_def)

lemma rev_sort_desc: "sorted_wrt (\<lambda>a b. b \<le> a) (rev (sort (confs::real list)))"
  by (simp add: sorted_wrt_rev)  

lemma margin_of_two:
  assumes "2 \<le> length confs"
  shows "margin_of confs =
     Inr (Max (set confs) - Max (set_mset (mset confs - {#Max (set confs)#})))"
proof -
  obtain c0 c1 rest where ys: "rev (sort confs) = c0 # c1 # rest"
  proof -
    have "2 \<le> length (rev (sort confs))" using assms by simp
    then show ?thesis using that
      by (cases "rev (sort confs)"; cases "tl (rev (sort confs))") auto
  qed
  have desc: "sorted_wrt (\<lambda>a b. b \<le> a) (c0 # c1 # rest)"
    using rev_sort_desc [of confs] ys by simp
  have ms: "mset confs = mset (c0 # c1 # rest)"
    by (metis ys mset_rev mset_sort)
  have st: "set confs = set (c0 # c1 # rest)"
    by (metis ms set_mset_mset)
  have m0: "Max (set confs) = c0"
    unfolding st using desc by (intro Max_eqI) auto
  have "mset confs - {#c0#} = mset (c1 # rest)"
    by (simp add: ms)
  moreover have "Max (set (c1 # rest)) = c1"
    using desc by (intro Max_eqI) auto
  ultimately have m1: "Max (set_mset (mset confs - {#c0#})) = c1"
    by simp
  show ?thesis
    by (simp add: margin_of_def ys m0 m1)
qed

subsection \<open>The two effect blocks, field by field\<close>

lemma move_to_label_snd:
  "snd (move_to_label img rsn s) = (case copy_exn img of Some e \<Rightarrow> Some e | None \<Rightarrow> unlink_exn img)"
  by (simp add: move_to_label_def Let_def split: option.splits)

lemma move_to_label_fields:
  "rows (fst (move_to_label img rsn s)) =
     rows s @ (if copy_exn img = None
               then [\<lparr>rfile = img_name img, route = ''to_label'', reason = rsn\<rparr>] else [])"
  "UNLABELED_DIR (fst (move_to_label img rsn s)) =
     (if copy_exn img = None \<and> unlink_exn img = None
      then UNLABELED_DIR s - {img_name img} else UNLABELED_DIR s)"
  "TO_LABEL_DIR (fst (move_to_label img rsn s)) =
     (if copy_exn img = None then insert (img_name img) (TO_LABEL_DIR s) else TO_LABEL_DIR s)"
  "AUTOLABELED_DIR (fst (move_to_label img rsn s)) = AUTOLABELED_DIR s"
  "to_label (fst (move_to_label img rsn s)) = to_label s + (if copy_exn img = None then 1 else 0)"
  "autolabeled (fst (move_to_label img rsn s)) = autolabeled s"
  "errors (fst (move_to_label img rsn s)) = errors s"
  "scanned (fst (move_to_label img rsn s)) = scanned s"
  by (simp_all add: move_to_label_def Let_def split: option.splits)

lemma auto_label_snd:
  "snd (auto_label img mx s) =
     (case copy_exn img of
        Some e \<Rightarrow> Some e
      | None \<Rightarrow> (case write_exn img of Some e \<Rightarrow> Some e | None \<Rightarrow> unlink_exn img))"
  by (simp add: auto_label_def Let_def split: option.splits)

lemma auto_label_fields:
  "rows (fst (auto_label img mx s)) =
     rows s @ (if copy_exn img = None \<and> write_exn img = None
               then [\<lparr>rfile = img_name img, route = ''autolabeled'', reason = Confident mx\<rparr>]
               else [])"
  "UNLABELED_DIR (fst (auto_label img mx s)) =
     (if copy_exn img = None \<and> write_exn img = None \<and> unlink_exn img = None
      then UNLABELED_DIR s - {img_name img} else UNLABELED_DIR s)"
  "TO_LABEL_DIR (fst (auto_label img mx s)) = TO_LABEL_DIR s"
  "AUTOLABELED_DIR (fst (auto_label img mx s)) =
     (if copy_exn img = None
      then (if write_exn img = None
            then insert (stem (img_name img) @ ''.txt'') (insert (img_name img) (AUTOLABELED_DIR s))
            else insert (img_name img) (AUTOLABELED_DIR s))
      else AUTOLABELED_DIR s)"
  "to_label (fst (auto_label img mx s)) = to_label s"
  "autolabeled (fst (auto_label img mx s)) =
     autolabeled s + (if copy_exn img = None \<and> write_exn img = None then 1 else 0)"
  "errors (fst (auto_label img mx s)) = errors s"
  "scanned (fst (auto_label img mx s)) = scanned s"
  by (simp_all add: auto_label_def Let_def split: option.splits)

text \<open>The body either fails before any effect, or runs one of the two blocks.\<close>

lemma try_body_cases:
  obtains (fail) e where "\<And>s. try_body cl ch img s = (s, Some e)"
  | (label) rsn where "\<And>s. try_body cl ch img s = move_to_label img rsn s"
  | (auto) mx where "\<And>s. try_body cl ch img s = auto_label img mx s"
proof (cases "predict img")
  case (Inl e)
  then have "\<And>s. try_body cl ch img s = (s, Some e)"
    by (simp add: try_body_def)
  then show ?thesis by (rule fail)
next
  case (Inr boxes)
  show ?thesis
  proof (cases "(case boxes of None \<Rightarrow> 0 | Some ds \<Rightarrow> length ds) = 0")
    case True
    with Inr have "\<And>s. try_body cl ch img s = move_to_label img (Literal ''no_detections'') s"
      by (simp add: try_body_def)
    then show ?thesis by (rule label)
  next
    case False
    then obtain ds where ds: "boxes = Some ds" "ds \<noteq> []"
      by (cases boxes) auto
    show ?thesis
    proof (cases "margin_of (map conf ds)")
      case (Inl e)
      with Inr ds have "\<And>s. try_body cl ch img s = (s, Some e)"
        by (simp add: try_body_def)
      then show ?thesis by (rule fail)
    next
      case mg: (Inr margin)
      show ?thesis
      proof (cases "uncertain cl ch (max_conf_of (map conf ds)) margin")
        case True
        with Inr ds mg have "\<And>s. try_body cl ch img s =
            move_to_label img (Uncertain (max_conf_of (map conf ds)) (mean_conf_of (map conf ds)) margin) s"
          by (simp add: try_body_def Let_def)
        then show ?thesis by (rule label)
      next
        case False
        with Inr ds mg have "\<And>s. try_body cl ch img s = auto_label img (max_conf_of (map conf ds)) s"
          by (simp add: try_body_def Let_def)
        then show ?thesis by (rule auto)
      qed
    qed
  qed
qed

lemma try_body_raised: "snd (try_body cl ch img s) = raised cl ch img"
  by (cases cl ch img rule: try_body_cases)
     (simp_all add: raised_def move_to_label_snd auto_label_snd)

lemma try_body_scanned: "scanned (fst (try_body cl ch img s)) = scanned s"
  by (cases cl ch img rule: try_body_cases)
     (simp_all add: move_to_label_fields auto_label_fields)

lemma try_body_errors: "errors (fst (try_body cl ch img s)) = errors s"
  by (cases cl ch img rule: try_body_cases)
     (simp_all add: move_to_label_fields auto_label_fields)

lemma try_body_rows:
  "rows (fst (try_body cl ch img s)) = rows s @ rows (fst (try_body cl ch img empty_state))"
  by (cases cl ch img rule: try_body_cases)
     (simp_all add: move_to_label_fields auto_label_fields empty_state_def)

lemma try_body_rows_rfile:
  "r \<in> set (rows (fst (try_body cl ch img empty_state))) \<Longrightarrow>
     rfile r = img_name img \<and> (route r = ''to_label'' \<or> route r = ''autolabeled'')"
  by (cases cl ch img rule: try_body_cases)
     (auto simp add: move_to_label_fields auto_label_fields empty_state_def split: if_splits)

lemma try_body_rows_ok:
  "raised cl ch img = None \<Longrightarrow> length (rows (fst (try_body cl ch img empty_state))) = 1"
  by (cases cl ch img rule: try_body_cases)
     (auto simp add: raised_def move_to_label_fields auto_label_fields move_to_label_snd
        auto_label_snd empty_state_def split: option.splits)

lemma try_body_unlabeled:
  "UNLABELED_DIR (fst (try_body cl ch img s)) =
     (if raised cl ch img = None then UNLABELED_DIR s - {img_name img} else UNLABELED_DIR s)"
  by (cases cl ch img rule: try_body_cases)
     (auto simp add: raised_def move_to_label_fields auto_label_fields move_to_label_snd
        auto_label_snd split: option.splits)

lemma try_body_counts_ok:
  "raised cl ch img = None \<Longrightarrow>
   to_label (fst (try_body cl ch img s)) + autolabeled (fst (try_body cl ch img s)) =
     to_label s + autolabeled s + 1"
  by (cases cl ch img rule: try_body_cases)
     (auto simp add: raised_def move_to_label_fields auto_label_fields move_to_label_snd
        auto_label_snd split: option.splits)

lemma try_body_counts_ge:
  "to_label s + autolabeled s \<le>
     to_label (fst (try_body cl ch img s)) + autolabeled (fst (try_body cl ch img s))"
  by (cases cl ch img rule: try_body_cases)
     (auto simp add: move_to_label_fields auto_label_fields)

lemma try_body_pools:
  "TO_LABEL_DIR s \<subseteq> TO_LABEL_DIR (fst (try_body cl ch img s))"
  "AUTOLABELED_DIR s \<subseteq> AUTOLABELED_DIR (fst (try_body cl ch img s))"
  by (cases cl ch img rule: try_body_cases;
      auto simp add: move_to_label_fields auto_label_fields)+

subsection \<open>One turn of the loop\<close>

lemma process_alt:
  "process cl ch img s =
     (let s1 = fst (try_body cl ch img (s\<lparr>scanned := scanned s + 1\<rparr>))
      in case raised cl ch img of
           None \<Rightarrow> s1
         | Some e \<Rightarrow>
             s1\<lparr>errors := errors s1 + 1,
                rows := rows s1 @ [\<lparr>rfile = img_name img, route = ''error'', reason = Repr e\<rparr>]\<rparr>)"
proof (cases "try_body cl ch img (s\<lparr>scanned := scanned s + 1\<rparr>)")
  case (Pair s1 r)
  then have "raised cl ch img = r"
    using try_body_raised [of cl ch img "s\<lparr>scanned := scanned s + 1\<rparr>"] by simp
  with Pair show ?thesis
    by (simp add: process_def split: option.splits)
qed

lemma process_scanned: "scanned (process cl ch img s) = scanned s + 1"
  by (simp add: process_alt Let_def try_body_scanned split: option.splits)

lemma process_errors:
  "errors (process cl ch img s) = errors s + (if raised cl ch img = None then 0 else 1)"
  by (simp add: process_alt Let_def try_body_errors split: option.splits)

lemma log_rows_alt:
  "log_rows cl ch img =
     rows (fst (try_body cl ch img empty_state)) @
     (case raised cl ch img of
        None \<Rightarrow> []
      | Some e \<Rightarrow> [\<lparr>rfile = img_name img, route = ''error'', reason = Repr e\<rparr>])"
  using try_body_rows [of cl ch img "empty_state\<lparr>scanned := scanned empty_state + 1\<rparr>"]
  by (simp add: log_rows_def process_alt Let_def empty_state_def split: option.splits)

lemma process_rows: "rows (process cl ch img s) = rows s @ log_rows cl ch img"
  using try_body_rows [of cl ch img "s\<lparr>scanned := scanned s + 1\<rparr>"]
  by (simp add: log_rows_alt process_alt Let_def split: option.splits)

lemma log_rows_rfile: "r \<in> set (log_rows cl ch img) \<Longrightarrow> rfile r = img_name img"
  by (auto simp add: log_rows_alt dest: try_body_rows_rfile split: option.splits)

lemma log_rows_errors:
  "filter (\<lambda>r. route r = ''error'') (log_rows cl ch img) =
     (case raised cl ch img of
        None \<Rightarrow> []
      | Some e \<Rightarrow> [\<lparr>rfile = img_name img, route = ''error'', reason = Repr e\<rparr>])"
proof -
  have "filter (\<lambda>r. route r = ''error'') (rows (fst (try_body cl ch img empty_state))) = []"
    by (auto simp add: filter_empty_conv dest: try_body_rows_rfile)
  then show ?thesis
    by (simp add: log_rows_alt split: option.splits)
qed

lemma process_unlabeled:
  "UNLABELED_DIR (process cl ch img s) =
     (if raised cl ch img = None then UNLABELED_DIR s - {img_name img} else UNLABELED_DIR s)"
  by (simp add: process_alt Let_def try_body_unlabeled split: option.splits)

lemma process_counts_ok:
  "raised cl ch img = None \<Longrightarrow>
   to_label (process cl ch img s) + autolabeled (process cl ch img s) =
     to_label s + autolabeled s + 1"
  using try_body_counts_ok [of cl ch img "s\<lparr>scanned := scanned s + 1\<rparr>"]
  by (simp add: process_alt Let_def)

lemma process_counts_ge:
  "to_label s + autolabeled s \<le> to_label (process cl ch img s) + autolabeled (process cl ch img s)"
  using try_body_counts_ge [of "s\<lparr>scanned := scanned s + 1\<rparr>" cl ch img]
  by (simp add: process_alt Let_def split: option.splits)

lemma process_pools:
  "TO_LABEL_DIR s \<subseteq> TO_LABEL_DIR (process cl ch img s)"
  "AUTOLABELED_DIR s \<subseteq> AUTOLABELED_DIR (process cl ch img s)"
  using try_body_pools [of "s\<lparr>scanned := scanned s + 1\<rparr>" cl ch img]
  by (simp_all add: process_alt Let_def split: option.splits)

subsection \<open>The whole loop\<close>

lemma loop_rows:
  "rows (fold (process cl ch) imgs s) = rows s @ concat (map (log_rows cl ch) imgs)"
  by (induction imgs arbitrary: s) (simp_all add: process_rows)

lemma loop_scanned: "scanned (fold (process cl ch) imgs s) = scanned s + length imgs"
  by (induction imgs arbitrary: s) (simp_all add: process_scanned)

lemma loop_errors:
  "errors (fold (process cl ch) imgs s) =
     errors s + length (filter (\<lambda>i. raised cl ch i \<noteq> None) imgs)"
  by (induction imgs arbitrary: s) (simp_all add: process_errors)

lemma loop_unlabeled:
  "UNLABELED_DIR (fold (process cl ch) imgs s) =
     UNLABELED_DIR s - img_name ` {i \<in> set imgs. raised cl ch i = None}"
  by (induction imgs arbitrary: s) (auto simp add: process_unlabeled)

lemma loop_counts_ok:
  "\<forall>i \<in> set imgs. raised cl ch i = None \<Longrightarrow>
   to_label (fold (process cl ch) imgs s) + autolabeled (fold (process cl ch) imgs s) =
     to_label s + autolabeled s + length imgs"
  by (induction imgs arbitrary: s) (simp_all add: process_counts_ok)

lemma loop_counts_ge:
  "to_label s + autolabeled s + length (filter (\<lambda>i. raised cl ch i = None) imgs) \<le>
     to_label (fold (process cl ch) imgs s) + autolabeled (fold (process cl ch) imgs s)"
proof (induction imgs arbitrary: s)
  case Nil
  then show ?case by simp
next
  case (Cons i imgs)
  show ?case
  proof (cases "raised cl ch i = None")
    case True
    then show ?thesis
      using Cons.IH [of "process cl ch i s"] process_counts_ok [of cl ch i s] by simp
  next
    case False
    then show ?thesis
      using Cons.IH [of "process cl ch i s"] process_counts_ge [of s cl ch i] by auto
  qed
qed

lemma loop_pools:
  "TO_LABEL_DIR s \<subseteq> TO_LABEL_DIR (fold (process cl ch) imgs s)"
  "AUTOLABELED_DIR s \<subseteq> AUTOLABELED_DIR (fold (process cl ch) imgs s)"
proof (induction imgs arbitrary: s)
  case Nil
  { case 1 show ?case by simp }
  { case 2 show ?case by simp }
next
  case (Cons i imgs)
  { case 1 show ?case using Cons.IH(1) [of "process cl ch i s"] process_pools(1) [of s cl ch i] by auto }
  { case 2 show ?case using Cons.IH(2) [of "process cl ch i s"] process_pools(2) [of s cl ch i] by auto }
qed

lemma try_body_dest:
  "raised cl ch img = None \<Longrightarrow>
     img_name img \<in> TO_LABEL_DIR (fst (try_body cl ch img s)) \<or>
     img_name img \<in> AUTOLABELED_DIR (fst (try_body cl ch img s))"
  by (cases cl ch img rule: try_body_cases)
     (auto simp add: raised_def move_to_label_fields auto_label_fields move_to_label_snd
        auto_label_snd split: option.splits)

lemma process_dest:
  "raised cl ch img = None \<Longrightarrow>
     img_name img \<in> TO_LABEL_DIR (process cl ch img s) \<or>
     img_name img \<in> AUTOLABELED_DIR (process cl ch img s)"
  using try_body_dest [of cl ch img "s\<lparr>scanned := scanned s + 1\<rparr>"]
  by (simp add: process_alt Let_def)

lemma loop_dest:
  "i \<in> set imgs \<Longrightarrow> raised cl ch i = None \<Longrightarrow>
     img_name i \<in> TO_LABEL_DIR (fold (process cl ch) imgs s) \<or>
     img_name i \<in> AUTOLABELED_DIR (fold (process cl ch) imgs s)"
proof (induction imgs arbitrary: s)
  case Nil
  then show ?case by simp
next
  case (Cons j imgs)
  show ?case
  proof (cases "i \<in> set imgs")
    case True
    then show ?thesis using Cons.IH [of "process cl ch j s"] Cons.prems by simp
  next
    case False
    then have "i = j" using Cons.prems by simp
    then show ?thesis
      using process_dest [of cl ch i s] Cons.prems
        loop_pools [of "process cl ch j s" cl ch imgs]
      by auto
  qed
qed

lemma stage_select_rows:
  "rows (stage_select cl ch listing tld ald) =
     concat (map (log_rows cl ch) (filter (\<lambda>p. is_image (img_name p)) listing))"
  by (simp add: stage_select_def loop_rows)

lemma log_rows_ok_length: "raised cl ch i = None \<Longrightarrow> length (log_rows cl ch i) = 1"
  by (simp add: log_rows_alt try_body_rows_ok)

lemma length_rows_ok:
  "\<forall>i \<in> set imgs. raised cl ch i = None \<Longrightarrow>
     length (concat (map (log_rows cl ch) imgs)) = length imgs"
  by (induction imgs) (simp_all add: log_rows_ok_length)

lemma filter_other_rows:
  "\<forall>i \<in> set imgs. img_name i \<noteq> n \<Longrightarrow>
     filter (\<lambda>r. rfile r \<noteq> n) (concat (map (log_rows cl ch) imgs)) =
       concat (map (log_rows cl ch) imgs)"
  by (induction imgs) (auto simp add: filter_id_conv dest: log_rows_rfile)

lemma filter_error_rows_ok:
  "\<forall>i \<in> set imgs. raised cl ch i = None \<Longrightarrow>
     filter (\<lambda>r. route r = ''error'') (concat (map (log_rows cl ch) imgs)) = []"
  by (induction imgs) (simp_all add: log_rows_errors)

lemma filter_own_rows:
  "filter (\<lambda>r. rfile r \<noteq> img_name x) (log_rows cl ch x) = []"
  by (auto simp add: filter_empty_conv dest: log_rows_rfile)

subsection \<open>The counters when no \<^verbatim>\<open>unlink\<close> raises\<close>

lemma try_body_counted_once:
  assumes "unlink_exn img = None"
  shows "to_label (fst (try_body cl ch img s)) + autolabeled (fst (try_body cl ch img s)) +
           (if raised cl ch img = None then 0 else 1) =
         to_label s + autolabeled s + 1"
  using assms
  by (cases cl ch img rule: try_body_cases)
     (auto simp add: raised_def move_to_label_fields auto_label_fields move_to_label_snd
        auto_label_snd split: option.splits)

lemma process_counted_once:
  assumes "unlink_exn img = None"
  shows "to_label (process cl ch img s) + autolabeled (process cl ch img s) +
           errors (process cl ch img s) =
         to_label s + autolabeled s + errors s + 1"
  using try_body_counted_once [OF assms, of cl ch "s\<lparr>scanned := scanned s + 1\<rparr>"]
    try_body_errors [of cl ch img "s\<lparr>scanned := scanned s + 1\<rparr>"]
  by (auto simp add: process_alt Let_def split: option.splits)

lemma loop_counted_once:
  "\<forall>img \<in> set imgs. unlink_exn img = None \<Longrightarrow>
     to_label (fold (process cl ch) imgs s) + autolabeled (fold (process cl ch) imgs s) +
       errors (fold (process cl ch) imgs s) =
     to_label s + autolabeled s + errors s + length imgs"
  by (induction imgs arbitrary: s) (simp_all add: process_counted_once)

lemma stage_select_counted_once:
  assumes "\<forall>img \<in> set listing. unlink_exn img = None"
  shows "scanned (stage_select cl ch listing tld ald) =
           to_label (stage_select cl ch listing tld ald) +
           autolabeled (stage_select cl ch listing tld ald) +
           errors (stage_select cl ch listing tld ald)"
proof -
  have "\<forall>img \<in> set (filter (\<lambda>p. is_image (img_name p)) listing). unlink_exn img = None"
    using assms by simp
  from loop_counted_once [OF this] show ?thesis
    unfolding stage_select_def by (simp add: loop_scanned)
qed

subsection \<open>Images by what inference returns\<close>

lemma try_body_no_detections:
  "predict img = Inr boxes \<Longrightarrow> boxes = None \<or> boxes = Some [] \<Longrightarrow>
     try_body cl ch img s = move_to_label img (Literal ''no_detections'') s"
  by (auto simp add: try_body_def)

lemma margin_of_nonempty:
  assumes "confs \<noteq> []"
  shows "margin_of confs = Inr (projr (margin_of confs))"
proof -
  have "rev (sort confs) \<noteq> []"
    using assms by (metis length_0_conv length_rev length_sort)
  then show ?thesis
    by (cases "rev (sort confs)") (simp_all add: margin_of_def)
qed

lemma try_body_detections:
  "predict img = Inr (Some ds) \<Longrightarrow> ds \<noteq> [] \<Longrightarrow>
     try_body cl ch img s =
       (if uncertain cl ch (max_conf_of (map conf ds)) (projr (margin_of (map conf ds)))
        then move_to_label img
               (Uncertain (max_conf_of (map conf ds)) (mean_conf_of (map conf ds))
                  (projr (margin_of (map conf ds)))) s
        else auto_label img (max_conf_of (map conf ds)) s)"
  using margin_of_nonempty [of "map conf ds"]
  by (cases "margin_of (map conf ds)") (auto simp add: try_body_def Let_def)

lemma log_rows_routes:
  "filter (\<lambda>r. route r \<noteq> ''error'') (log_rows cl ch img) =
     rows (fst (try_body cl ch img empty_state))"
  by (auto simp add: log_rows_alt filter_id_conv dest: try_body_rows_rfile split: option.splits)

lemma stage_select_rows_mem:
  "img \<in> set listing \<Longrightarrow> is_image (img_name img) \<Longrightarrow>
   r \<in> set (rows (fst (try_body cl ch img empty_state))) \<Longrightarrow>
   r \<in> set (rows (stage_select cl ch listing tld ald))"
  by (auto simp add: stage_select_rows log_rows_alt)

lemma try_body_pool_union:
  "TO_LABEL_DIR (fst (try_body cl ch img s)) =
     TO_LABEL_DIR s \<union> TO_LABEL_DIR (fst (try_body cl ch img empty_state))"
  "AUTOLABELED_DIR (fst (try_body cl ch img s)) =
     AUTOLABELED_DIR s \<union> AUTOLABELED_DIR (fst (try_body cl ch img empty_state))"
  by (cases cl ch img rule: try_body_cases;
      auto simp add: move_to_label_fields auto_label_fields empty_state_def)+

lemma process_pool_sub:
  "TO_LABEL_DIR (fst (try_body cl ch img empty_state)) \<subseteq> TO_LABEL_DIR (process cl ch img s)"
  "AUTOLABELED_DIR (fst (try_body cl ch img empty_state)) \<subseteq> AUTOLABELED_DIR (process cl ch img s)"
  using try_body_pool_union [of cl ch img "s\<lparr>scanned := scanned s + 1\<rparr>"]
  by (auto simp add: process_alt Let_def split: option.splits)

lemma loop_pool_mem:
  "img \<in> set imgs \<Longrightarrow>
     TO_LABEL_DIR (fst (try_body cl ch img empty_state))
       \<subseteq> TO_LABEL_DIR (fold (process cl ch) imgs s) \<and>
     AUTOLABELED_DIR (fst (try_body cl ch img empty_state))
       \<subseteq> AUTOLABELED_DIR (fold (process cl ch) imgs s)"
proof (induction imgs arbitrary: s)
  case Nil
  then show ?case by simp
next
  case (Cons j imgs)
  show ?case
  proof (cases "img \<in> set imgs")
    case True
    then show ?thesis using Cons.IH [of "process cl ch j s"] by simp
  next
    case False
    then have "img = j" using Cons.prems by simp
    then show ?thesis
      using process_pool_sub [of cl ch img s] loop_pools [of "process cl ch j s" cl ch imgs]
      by auto
  qed
qed

lemma stage_select_pool_mem:
  "img \<in> set listing \<Longrightarrow> is_image (img_name img) \<Longrightarrow>
     TO_LABEL_DIR (fst (try_body cl ch img empty_state))
       \<subseteq> TO_LABEL_DIR (stage_select cl ch listing tld ald) \<and>
     AUTOLABELED_DIR (fst (try_body cl ch img empty_state))
       \<subseteq> AUTOLABELED_DIR (stage_select cl ch listing tld ald)"
  unfolding stage_select_def by (rule loop_pool_mem) simp

lemma sole_detection_body:
  assumes "predict img = Inr (Some ds)" and "map conf ds = [c]"
  shows "try_body cl ch img s =
     (if uncertain cl ch c c then move_to_label img (Uncertain c c c) s
      else auto_label img c s)"
proof -
  have "ds \<noteq> []" using assms(2) by auto
  from try_body_detections [OF assms(1) this, of cl ch s] show ?thesis
    by (simp add: assms(2) max_conf_of_def mean_conf_of_def margin_of_def)
qed

lemma two_detections_body:
  assumes "predict img = Inr (Some ds)" and "map conf ds = [a, b]"
  shows "try_body cl ch img s =
     (if uncertain cl ch (max a b) (max a b - min a b)
      then move_to_label img (Uncertain (max a b) ((a + b) / 2) (max a b - min a b)) s
      else auto_label img (max a b) s)"
proof -
  have "ds \<noteq> []" using assms(2) by auto
  from try_body_detections [OF assms(1) this, of cl ch s] show ?thesis
    by (cases "a \<le> b")
       (simp_all add: assms(2) max_conf_of_def mean_conf_of_def margin_of_def max_def min_def)
qed

subsection \<open>The sample data\<close>

lemma is_image_samples:
  "is_image ''a.jpg''" "is_image ''b.JPG''" "is_image ''c.png''" "\<not> is_image ''notes.txt''"
  by code_simp+

lemma raised_img_bad: "raised cl ch (img_bad n e) = Some e"
  by (simp add: raised_def try_body_def img_bad_def)

lemma raised_img_ok_dets: "raised cl ch (img_ok n (Some ds)) = None"
proof (cases "ds = []")
  case True
  then show ?thesis
    by (simp add: raised_def try_body_def img_ok_def move_to_label_def empty_state_def)
next
  case False
  then show ?thesis
    using try_body_detections [of "img_ok n (Some ds)" ds cl ch empty_state]
    by (simp add: raised_def img_ok_def move_to_label_snd auto_label_snd)
qed

section \<open>Properties of ingest\<close>

subsection \<open>Dictionaries as association lists\<close>

lemma update_absent: "k \<notin> fst ` set al \<Longrightarrow> AList.update k v al = al @ [(k, v)]"
  by (induction al) auto

lemma update_keys: "fst ` set (AList.update k v al) = insert k (fst ` set al)"
  using dom_update [of k v al] by (simp add: dom_map_of_conv_image_fst)

lemma filter_snd_absent: "b \<notin> snd ` set al \<Longrightarrow> filter (\<lambda>p. snd p = b) al = []"
  by (auto simp add: filter_empty_conv)

lemma filter_snd_update:
  "b \<notin> snd ` set al \<Longrightarrow> filter (\<lambda>p. snd p = b) (AList.update k b al) = [(k, b)]"
  by (induction al) (auto simp add: filter_snd_absent)

lemma filter_key_distinct:
  "distinct (map fst al) \<Longrightarrow> length (filter (\<lambda>p. fst p = k) al) \<le> 1"
  by (induction al) (auto simp add: filter_empty_conv image_iff)

lemma filter_key_present:
  "distinct (map fst al) \<Longrightarrow> map_of al k = Some v \<Longrightarrow> filter (\<lambda>p. fst p = k) al = [(k, v)]"
  by (induction al) (auto simp add: filter_empty_conv image_iff split: if_splits)

subsection \<open>One turn of the ingest loop\<close>

lemma ingest_one_skip_seen: "H (snd ip) \<in> fst ` set (seen_hashes s) \<Longrightarrow> ingest_one H ip s = s"
  by (simp add: ingest_one_def)

lemma ingest_one_new:
  "is_image (fst ip) \<Longrightarrow> H (snd ip) \<notin> fst ` set (seen_hashes s) \<Longrightarrow>
     ingest_one H ip s =
       s\<lparr>unlabeled_files := AList.update (fst ip) (snd ip) (unlabeled_files s),
         seen_hashes := seen_hashes s @ [(H (snd ip), fst ip)],
         new_paths := new_paths s @ [fst ip]\<rparr>"
  by (simp add: ingest_one_def update_absent)

lemma ingest_one_keys_mono:
  "fst ` set (seen_hashes s) \<subseteq> fst ` set (seen_hashes (ingest_one H ip s))"
  by (auto simp add: ingest_one_def Let_def update_keys)

lemma ingest_one_key_in:
  "is_image (fst ip) \<Longrightarrow> H (snd ip) \<in> fst ` set (seen_hashes (ingest_one H ip s))"
  by (auto simp add: ingest_one_def Let_def update_keys)

subsection \<open>The ingest loop\<close>

lemma ingest_loop_keys_mono:
  "fst ` set (seen_hashes s) \<subseteq> fst ` set (seen_hashes (fold (ingest_one H) inc s))"
proof (induction inc arbitrary: s)
  case Nil
  then show ?case by simp
next
  case (Cons ip inc)
  show ?case
    using Cons.IH [of "ingest_one H ip s"] ingest_one_keys_mono [of s H ip] by auto
qed

lemma ingest_loop_all_seen:
  "ip \<in> set inc \<Longrightarrow> is_image (fst ip) \<Longrightarrow>
     H (snd ip) \<in> fst ` set (seen_hashes (fold (ingest_one H) inc s))"
proof (induction inc arbitrary: s)
  case Nil
  then show ?case by simp
next
  case (Cons a inc)
  show ?case
  proof (cases "ip = a")
    case True
    then show ?thesis
      using ingest_one_key_in [of ip H s] Cons.prems(2)
        ingest_loop_keys_mono [of "ingest_one H a s" H inc]
      by auto
  next
    case False
    then show ?thesis using Cons by simp
  qed
qed

lemma ingest_loop_noop:
  "\<forall>ip \<in> set inc. is_image (fst ip) \<longrightarrow> H (snd ip) \<in> fst ` set (seen_hashes s) \<Longrightarrow>
     fold (ingest_one H) inc s = s"
  by (induction inc) (auto simp add: ingest_one_def)

lemma ingest_loop_new:
  "\<exists>new_files.
     new_paths (fold (ingest_one H) inc s) = new_paths s @ map fst new_files \<and>
     seen_hashes (fold (ingest_one H) inc s) =
       seen_hashes s @ map (\<lambda>p. (H (snd p), fst p)) new_files \<and>
     set new_files \<subseteq> {p \<in> set inc. is_image (fst p)} \<and>
     distinct (map (\<lambda>p. H (snd p)) new_files) \<and>
     (\<lambda>p. H (snd p)) ` set new_files \<inter> fst ` set (seen_hashes s) = {}"
proof (induction inc arbitrary: s)
  case Nil
  show ?case by (rule exI [of _ "[]"]) simp
next
  case (Cons ip inc)
  show ?case
  proof (cases "is_image (fst ip) \<and> H (snd ip) \<notin> fst ` set (seen_hashes s)")
    case False
    then have same: "ingest_one H ip s = s"
      by (auto simp add: ingest_one_def)
    obtain nf where nf:
      "new_paths (fold (ingest_one H) inc s) = new_paths s @ map fst nf"
      "seen_hashes (fold (ingest_one H) inc s) = seen_hashes s @ map (\<lambda>p. (H (snd p), fst p)) nf"
      "set nf \<subseteq> {p \<in> set inc. is_image (fst p)}"
      "distinct (map (\<lambda>p. H (snd p)) nf)"
      "(\<lambda>p. H (snd p)) ` set nf \<inter> fst ` set (seen_hashes s) = {}"
      using Cons.IH [of s] by blast
    show ?thesis
      by (rule exI [of _ nf]) (use nf in \<open>auto simp add: same\<close>)
  next
    case True
    define s' where "s' = ingest_one H ip s"
    have s': "new_paths s' = new_paths s @ [fst ip]"
      "seen_hashes s' = seen_hashes s @ [(H (snd ip), fst ip)]"
      using True by (simp_all add: s'_def ingest_one_new)
    obtain nf where nf:
      "new_paths (fold (ingest_one H) inc s') = new_paths s' @ map fst nf"
      "seen_hashes (fold (ingest_one H) inc s') = seen_hashes s' @ map (\<lambda>p. (H (snd p), fst p)) nf"
      "set nf \<subseteq> {p \<in> set inc. is_image (fst p)}"
      "distinct (map (\<lambda>p. H (snd p)) nf)"
      "(\<lambda>p. H (snd p)) ` set nf \<inter> fst ` set (seen_hashes s') = {}"
      using Cons.IH [of s'] by blast
    have fresh: "H (snd ip) \<notin> (\<lambda>p. H (snd p)) ` set nf"
      using nf(5) by (auto simp add: s'(2))
    show ?thesis
      apply (rule exI [of _ "ip # nf"])
      using nf True fresh
      by (auto simp add: s'_def [symmetric] s')
  qed
qed

lemma stage_ingest_new:
  "\<exists>new_files.
     new_paths (stage_ingest H inc pool hash_index) = map fst new_files \<and>
     seen_hashes (stage_ingest H inc pool hash_index) =
       (case hash_index of None \<Rightarrow> [] | Some idx \<Rightarrow> idx) @ map (\<lambda>p. (H (snd p), fst p)) new_files \<and>
     set new_files \<subseteq> {p \<in> set inc. is_image (fst p)} \<and>
     distinct (map (\<lambda>p. H (snd p)) new_files) \<and>
     (\<lambda>p. H (snd p)) ` set new_files \<inter>
       fst ` set (case hash_index of None \<Rightarrow> [] | Some idx \<Rightarrow> idx) = {}"
  using ingest_loop_new [of H inc
      "\<lparr>unlabeled_files = pool,
        seen_hashes = (case hash_index of None \<Rightarrow> [] | Some idx \<Rightarrow> idx), new_paths = []\<rparr>"]
  by (simp add: stage_ingest_def)

lemma map_le_append: "map_of al \<subseteq>\<^sub>m map_of (al @ ext)"
  by simp

lemma stage_ingest_all_seen:
  "ip \<in> set inc \<Longrightarrow> is_image (fst ip) \<Longrightarrow>
     H (snd ip) \<in> fst ` set (seen_hashes (stage_ingest H inc pool hash_index))"
  unfolding stage_ingest_def by (rule ingest_loop_all_seen)

lemma stage_ingest_noop:
  assumes "\<forall>ip \<in> set inc. is_image (fst ip) \<longrightarrow> H (snd ip) \<in> fst ` set idx"
  shows "stage_ingest H inc pool (Some idx) =
           \<lparr>unlabeled_files = pool, seen_hashes = idx, new_paths = []\<rparr>"
  unfolding stage_ingest_def using assms by (simp add: ingest_loop_noop)

lemma stage_ingest_rerun:
  assumes "\<forall>ip \<in> set inc2. is_image (fst ip) \<longrightarrow>
             (\<exists>ip' \<in> set inc. is_image (fst ip') \<and> snd ip' = snd ip)"
  shows "stage_ingest H inc2 (unlabeled_files (stage_ingest H inc pool hash_index))
           (Some (seen_hashes (stage_ingest H inc pool hash_index))) =
         (stage_ingest H inc pool hash_index)\<lparr>new_paths := []\<rparr>"
proof -
  have "\<forall>ip \<in> set inc2. is_image (fst ip) \<longrightarrow>
      H (snd ip) \<in> fst ` set (seen_hashes (stage_ingest H inc pool hash_index))"
  proof (intro ballI impI)
    fix ip assume "ip \<in> set inc2" "is_image (fst ip)"
    then obtain ip' where "ip' \<in> set inc" "is_image (fst ip')" "snd ip' = snd ip"
      using assms by blast
    then show "H (snd ip) \<in> fst ` set (seen_hashes (stage_ingest H inc pool hash_index))"
      using stage_ingest_all_seen [of ip' inc H pool hash_index] by simp
  qed
  then show ?thesis
    by (simp add: stage_ingest_noop)
qed

lemma stage_ingest_single:
  assumes "is_image n" and "H b \<notin> fst ` set (case hash_index of None \<Rightarrow> [] | Some idx \<Rightarrow> idx)"
  shows "stage_ingest H [(n, b)] pool hash_index =
     \<lparr>unlabeled_files = AList.update n b pool,
      seen_hashes = (case hash_index of None \<Rightarrow> [] | Some idx \<Rightarrow> idx) @ [(H b, n)],
      new_paths = [n]\<rparr>"
  using assms by (simp add: stage_ingest_def ingest_one_new)

lemma new_paths_unique_content:
  assumes names: "distinct (map fst inc)"
      and in1: "(n1, b) \<in> set inc" and in2: "(n2, b) \<in> set inc" and ne: "n1 \<noteq> n2"
  shows "\<not> (n1 \<in> set (new_paths (stage_ingest H inc pool hash_index)) \<and>
            n2 \<in> set (new_paths (stage_ingest H inc pool hash_index)))"
proof
  assume both: "n1 \<in> set (new_paths (stage_ingest H inc pool hash_index)) \<and>
            n2 \<in> set (new_paths (stage_ingest H inc pool hash_index))"
  obtain nf where nf:
    "new_paths (stage_ingest H inc pool hash_index) = map fst nf"
    "set nf \<subseteq> {p \<in> set inc. is_image (fst p)}"
    "distinct (map (\<lambda>p. H (snd p)) nf)"
    using stage_ingest_new [of H inc pool hash_index] by blast
  from both obtain b1 b2 where p: "(n1, b1) \<in> set nf" "(n2, b2) \<in> set nf"
    by (auto simp add: nf(1))
  then have "(n1, b1) \<in> set inc" "(n2, b2) \<in> set inc"
    using nf(2) by auto
  then have "b1 = b" "b2 = b"
    using names in1 in2 by (auto dest: eq_key_imp_eq_value)
  then have "(n1, b) \<in> set nf" "(n2, b) \<in> set nf"
    using p by simp_all
  moreover have "inj_on (\<lambda>p. H (snd p)) (set nf)"
    using nf(3) by (simp add: distinct_map)
  ultimately have "(n1, b) = (n2, b)"
    using inj_onD [of "\<lambda>p. H (snd p)" "set nf" "(n1, b)" "(n2, b)"] by simp
  then show False using ne by simp
qed

lemma seen_hashes_distinct:
  assumes "distinct (map fst (case hash_index of None \<Rightarrow> [] | Some idx \<Rightarrow> idx))"
  shows "distinct (map fst (seen_hashes (stage_ingest H inc pool hash_index)))"
proof -
  obtain nf where nf:
    "seen_hashes (stage_ingest H inc pool hash_index) =
       (case hash_index of None \<Rightarrow> [] | Some idx \<Rightarrow> idx) @ map (\<lambda>p. (H (snd p), fst p)) nf"
    "distinct (map (\<lambda>p. H (snd p)) nf)"
    "(\<lambda>p. H (snd p)) ` set nf \<inter>
       fst ` set (case hash_index of None \<Rightarrow> [] | Some idx \<Rightarrow> idx) = {}"
    using stage_ingest_new [of H inc pool hash_index] by blast
  have "map fst (map (\<lambda>p. (H (snd p), fst p)) nf) = map (\<lambda>p. H (snd p)) nf"
    by (simp add: comp_def)
  moreover have "fst ` set (map (\<lambda>p. (H (snd p), fst p)) nf) = (\<lambda>p. H (snd p)) ` set nf"
    by force
  ultimately show ?thesis
    using assms nf(2,3) unfolding nf(1) by (auto simp add: comp_def)
qed


subsection \<open>Files of the pool with given bytes\<close>

lemma filter_snd_update_other:
  "b' \<noteq> b \<Longrightarrow>
     length (filter (\<lambda>p. snd p = b) (AList.update k b' al)) \<le> length (filter (\<lambda>p. snd p = b) al)"
  by (induction al) auto

lemma ingest_one_pool_count:
  assumes "length (filter (\<lambda>p. snd p = b) (unlabeled_files s)) \<le> 1"
      and "filter (\<lambda>p. snd p = b) (unlabeled_files s) \<noteq> [] \<longrightarrow> H b \<in> fst ` set (seen_hashes s)"
  shows "length (filter (\<lambda>p. snd p = b) (unlabeled_files (ingest_one H ip s))) \<le> 1 \<and>
         (filter (\<lambda>p. snd p = b) (unlabeled_files (ingest_one H ip s)) \<noteq> [] \<longrightarrow>
            H b \<in> fst ` set (seen_hashes (ingest_one H ip s)))"
proof (cases "is_image (fst ip) \<and> H (snd ip) \<notin> fst ` set (seen_hashes s)")
  case False
  then have "ingest_one H ip s = s"
    by (auto simp add: ingest_one_def)
  then show ?thesis using assms by simp
next
  case True
  then have new: "unlabeled_files (ingest_one H ip s) = AList.update (fst ip) (snd ip) (unlabeled_files s)"
      "seen_hashes (ingest_one H ip s) = seen_hashes s @ [(H (snd ip), fst ip)]"
    by (simp_all add: ingest_one_new)
  show ?thesis
  proof (cases "snd ip = b")
    case same: True
    then have "H b \<notin> fst ` set (seen_hashes s)" using True by simp
    then have "filter (\<lambda>p. snd p = b) (unlabeled_files s) = []"
      using assms(2) by blast
    then have "b \<notin> snd ` set (unlabeled_files s)"
      by (auto simp add: filter_empty_conv)
    then have "filter (\<lambda>p. snd p = b) (AList.update (fst ip) b (unlabeled_files s)) = [(fst ip, b)]"
      by (rule filter_snd_update)
    then show ?thesis
      by (simp add: new same)
  next
    case other: False
    have le: "length (filter (\<lambda>p. snd p = b) (unlabeled_files (ingest_one H ip s))) \<le>
        length (filter (\<lambda>p. snd p = b) (unlabeled_files s))"
      unfolding new using other by (intro filter_snd_update_other) simp
    then have c1: "length (filter (\<lambda>p. snd p = b) (unlabeled_files (ingest_one H ip s))) \<le> 1"
      using assms(1) by simp
    have "filter (\<lambda>p. snd p = b) (unlabeled_files s) \<noteq> []"
      if "filter (\<lambda>p. snd p = b) (unlabeled_files (ingest_one H ip s)) \<noteq> []"
      using that le by auto
    then show ?thesis
      using c1 assms(2) by (auto simp add: new(2))
  qed
qed

lemma ingest_loop_pool_count:
  "length (filter (\<lambda>p. snd p = b) (unlabeled_files s)) \<le> 1 \<Longrightarrow>
   (filter (\<lambda>p. snd p = b) (unlabeled_files s) \<noteq> [] \<longrightarrow> H b \<in> fst ` set (seen_hashes s)) \<Longrightarrow>
   length (filter (\<lambda>p. snd p = b) (unlabeled_files (fold (ingest_one H) inc s))) \<le> 1"
proof (induction inc arbitrary: s)
  case Nil
  then show ?case by simp
next
  case (Cons ip inc)
  from ingest_one_pool_count [of b s H ip] Cons.prems
  show ?case
    using Cons.IH [of "ingest_one H ip s"] by simp
qed

lemma stage_ingest_pool_count:
  assumes "b \<notin> snd ` set pool"
  shows "length (filter (\<lambda>p. snd p = b) (unlabeled_files (stage_ingest H inc pool hash_index))) \<le> 1"
proof -
  have "filter (\<lambda>p. snd p = b) pool = []"
    using assms by (rule filter_snd_absent)
  then show ?thesis
    unfolding stage_ingest_def by (intro ingest_loop_pool_count) simp_all
qed

section \<open>Properties of dataset assembly\<close>














section \<open>The claims about the triage\<close>

text \<open>
  C1 (as amended). The margin is the difference between the two highest confidences
  whenever there are at least two detections: the highest confidence minus the highest of
  the rest. With exactly one detection the second operand is \<open>0.0\<close>, so the margin is
  that detection's confidence itself, not \<open>0\<close>; the margin clause \<open>margin < 0.10\<close> then
  holds only for a sole detection below \<open>0.10\<close>.
\<close>

theorem margin_of_two_highest:
  "margin_of [c] = Inr c \<and>
   (2 \<le> length confs \<longrightarrow>
      margin_of confs =
        Inr (Max (set confs) - Max (set_mset (mset confs - {#Max (set confs)#}))))"
  by (simp add: margin_of_single margin_of_two)

theorem margin_of_two_highest_witness:
  "margin_of [0.451] = Inr 0.451 \<and>
   2 \<le> length [0.80, 0.75 :: real] \<and>
   margin_of [0.80, 0.75] =
     Inr (Max (set [0.80, 0.75]) - Max (set_mset (mset [0.80, 0.75] - {#Max (set [0.80, 0.75])#})))"
  using margin_of_two_highest [of "0.451" "[0.80, 0.75]"] by simp

text \<open>
  C1 as stated fails: for an image with the single detection of confidence \<open>0.9\<close> the
  computed margin is \<open>0.9\<close>, not \<open>0\<close>, and the margin clause is false.
\<close>

theorem margin_single_detection_counterexample:
  "margin_of (map conf [det 0.9]) \<noteq> Inr 0 \<and>
   \<not> projr (margin_of (map conf [det 0.9])) < 0.10 \<and>
   \<not> uncertain 0.15 0.45 (max_conf_of (map conf [det 0.9])) (projr (margin_of (map conf [det 0.9])))"
  by (simp add: margin_of_def det_def uncertain_def max_conf_of_def)

text \<open>
  C5. Error isolation. Let the image files of the unlabeled directory be \<open>pre @ x # post\<close>
  (names distinct), where \<open>x\<close> is the only image for which the \<^verbatim>\<open>try\<close> block raises, with
  exception \<open>e\<close>. Then the stage returns its counters with \<open>scanned\<close> the number of images
  and \<open>errors = 1\<close>; the log holds exactly one error row, for \<open>x\<close>, with \<^verbatim>\<open>repr(e)\<close>; \<open>x\<close> is
  still in the unlabeled directory; every other image has left the unlabeled directory
  and stands in a destination pool; and the rows of the other images are exactly the rows
  of the run over the directory without \<open>x\<close>, one per image.
\<close>

theorem stage_select_error_isolation:
  assumes batch: "filter (\<lambda>p. is_image (img_name p)) listing = pre @ x # post"
      and names: "distinct (map img_name listing)"
      and others: "\<forall>i \<in> set (pre @ post). raised cl ch i = None"
      and fails: "raised cl ch x = Some e"
  shows "scanned (stage_select cl ch listing tld ald) = length pre + length post + 1 \<and>
         errors (stage_select cl ch listing tld ald) = 1 \<and>
         filter (\<lambda>r. route r = ''error'') (rows (stage_select cl ch listing tld ald)) =
           [\<lparr>rfile = img_name x, route = ''error'', reason = Repr e\<rparr>] \<and>
         img_name x \<in> UNLABELED_DIR (stage_select cl ch listing tld ald) \<and>
         (\<forall>i \<in> set (pre @ post).
            img_name i \<notin> UNLABELED_DIR (stage_select cl ch listing tld ald) \<and>
            (img_name i \<in> TO_LABEL_DIR (stage_select cl ch listing tld ald) \<or>
             img_name i \<in> AUTOLABELED_DIR (stage_select cl ch listing tld ald))) \<and>
         filter (\<lambda>r. rfile r \<noteq> img_name x) (rows (stage_select cl ch listing tld ald)) =
           rows (stage_select cl ch (filter (\<lambda>p. img_name p \<noteq> img_name x) listing) tld ald) \<and>
         length (rows (stage_select cl ch (filter (\<lambda>p. img_name p \<noteq> img_name x) listing) tld ald)) =
           length pre + length post \<and>
         length pre + length post \<le>
           to_label (stage_select cl ch listing tld ald) +
           autolabeled (stage_select cl ch listing tld ald)"
proof -
  define imgs where "imgs = filter (\<lambda>p. is_image (img_name p)) listing"
  have imgs: "imgs = pre @ x # post"
    using batch by (simp add: imgs_def)
  have sub: "set imgs \<subseteq> set listing"
    by (auto simp add: imgs_def)
  have dist: "distinct (map img_name imgs)"
    unfolding imgs_def using names by (simp add: distinct_map_filter)
  then have other_names: "\<forall>i \<in> set (pre @ post). img_name i \<noteq> img_name x"
    unfolding imgs by (auto simp add: image_iff)
  have x_in: "x \<in> set listing"
    using sub imgs by auto
  have ok_set: "{i \<in> set imgs. raised cl ch i = None} = set (pre @ post)"
    using others fails unfolding imgs by auto
  have c1: "scanned (stage_select cl ch listing tld ald) = length pre + length post + 1"
    unfolding stage_select_def imgs_def [symmetric] by (subst loop_scanned) (simp add: imgs)
  have c2: "errors (stage_select cl ch listing tld ald) = 1"
    unfolding stage_select_def imgs_def [symmetric]
    using others fails by (subst loop_errors) (simp add: imgs)
  have c3: "filter (\<lambda>r. route r = ''error'') (rows (stage_select cl ch listing tld ald)) =
           [\<lparr>rfile = img_name x, route = ''error'', reason = Repr e\<rparr>]"
    unfolding stage_select_rows imgs_def [symmetric] imgs
    using others fails by (simp add: filter_error_rows_ok log_rows_errors)
  have unl: "UNLABELED_DIR (stage_select cl ch listing tld ald) =
      set (map img_name listing) - img_name ` set (pre @ post)"
    unfolding stage_select_def imgs_def [symmetric]
    by (simp only: loop_unlabeled ok_set select_state.simps)
  have c4: "img_name x \<in> UNLABELED_DIR (stage_select cl ch listing tld ald)"
    unfolding unl using x_in other_names by auto
  have c5: "\<forall>i \<in> set (pre @ post).
            img_name i \<notin> UNLABELED_DIR (stage_select cl ch listing tld ald) \<and>
            (img_name i \<in> TO_LABEL_DIR (stage_select cl ch listing tld ald) \<or>
             img_name i \<in> AUTOLABELED_DIR (stage_select cl ch listing tld ald))"
  proof
    fix i assume i: "i \<in> set (pre @ post)"
    then have "i \<in> set imgs" "raised cl ch i = None"
      using others by (auto simp add: imgs)
    then show "img_name i \<notin> UNLABELED_DIR (stage_select cl ch listing tld ald) \<and>
            (img_name i \<in> TO_LABEL_DIR (stage_select cl ch listing tld ald) \<or>
             img_name i \<in> AUTOLABELED_DIR (stage_select cl ch listing tld ald))"
      using i unfolding unl
      unfolding stage_select_def imgs_def [symmetric]
      by (auto dest: loop_dest)
  qed
  have rest: "filter (\<lambda>p. is_image (img_name p)) (filter (\<lambda>p. img_name p \<noteq> img_name x) listing) =
      pre @ post"
  proof -
    have "filter (\<lambda>p. is_image (img_name p)) (filter (\<lambda>p. img_name p \<noteq> img_name x) listing) =
        filter (\<lambda>p. img_name p \<noteq> img_name x) imgs"
      by (simp add: imgs_def conj_commute)
    also have "\<dots> = pre @ post"
      unfolding imgs using other_names by (simp add: filter_id_conv)
    finally show ?thesis .
  qed
  have c6: "filter (\<lambda>r. rfile r \<noteq> img_name x) (rows (stage_select cl ch listing tld ald)) =
           rows (stage_select cl ch (filter (\<lambda>p. img_name p \<noteq> img_name x) listing) tld ald)"
    unfolding stage_select_rows rest
    unfolding imgs_def [symmetric] imgs
    using other_names
    by (simp add: filter_other_rows filter_own_rows)
  have c7: "length (rows (stage_select cl ch (filter (\<lambda>p. img_name p \<noteq> img_name x) listing) tld ald)) =
           length pre + length post"
    unfolding stage_select_rows rest
    using length_rows_ok [OF others] by simp
  have "length (filter (\<lambda>i. raised cl ch i = None) imgs) = length pre + length post"
    unfolding imgs using others fails by (simp add: filter_id_conv)
  then have c8: "length pre + length post \<le>
           to_label (stage_select cl ch listing tld ald) +
           autolabeled (stage_select cl ch listing tld ald)"
    unfolding stage_select_def imgs_def [symmetric]
    using loop_counts_ge [of "\<lparr>UNLABELED_DIR = set (map img_name listing), TO_LABEL_DIR = tld,
        AUTOLABELED_DIR = ald, scanned = 0, to_label = 0, autolabeled = 0, errors = 0, rows = []\<rparr>"
        cl ch imgs]
    by simp
  show ?thesis
    using c1 c2 c3 c4 c5 c6 c7 c8 by blast
qed

theorem stage_select_error_isolation_witness:
  "filter (\<lambda>p. is_image (img_name p))
     [img_ok ''a.jpg'' (Some []), img_bad ''b.JPG'' (Raised ''RuntimeError''),
      img_ok ''c.png'' (Some [det 0.9]), img_ok ''notes.txt'' None] =
     [img_ok ''a.jpg'' (Some [])] @ img_bad ''b.JPG'' (Raised ''RuntimeError'') #
       [img_ok ''c.png'' (Some [det 0.9])] \<and>
   distinct (map img_name
     [img_ok ''a.jpg'' (Some []), img_bad ''b.JPG'' (Raised ''RuntimeError''),
      img_ok ''c.png'' (Some [det 0.9]), img_ok ''notes.txt'' None]) \<and>
   raised 0.15 0.45 (img_ok ''a.jpg'' (Some [])) = None \<and>
   raised 0.15 0.45 (img_ok ''c.png'' (Some [det 0.9])) = None \<and>
   raised 0.15 0.45 (img_bad ''b.JPG'' (Raised ''RuntimeError'')) = Some (Raised ''RuntimeError'') \<and>
   scanned (stage_select 0.15 0.45
     [img_ok ''a.jpg'' (Some []), img_bad ''b.JPG'' (Raised ''RuntimeError''),
      img_ok ''c.png'' (Some [det 0.9]), img_ok ''notes.txt'' None] {} {}) = 3 \<and>
   errors (stage_select 0.15 0.45
     [img_ok ''a.jpg'' (Some []), img_bad ''b.JPG'' (Raised ''RuntimeError''),
      img_ok ''c.png'' (Some [det 0.9]), img_ok ''notes.txt'' None] {} {}) = 1 \<and>
   filter (\<lambda>r. route r = ''error'') (rows (stage_select 0.15 0.45
     [img_ok ''a.jpg'' (Some []), img_bad ''b.JPG'' (Raised ''RuntimeError''),
      img_ok ''c.png'' (Some [det 0.9]), img_ok ''notes.txt'' None] {} {})) =
     [\<lparr>rfile = ''b.JPG'', route = ''error'', reason = Repr (Raised ''RuntimeError'')\<rparr>] \<and>
   ''b.JPG'' \<in> UNLABELED_DIR (stage_select 0.15 0.45
     [img_ok ''a.jpg'' (Some []), img_bad ''b.JPG'' (Raised ''RuntimeError''),
      img_ok ''c.png'' (Some [det 0.9]), img_ok ''notes.txt'' None] {} {}) \<and>
   ''a.jpg'' \<notin> UNLABELED_DIR (stage_select 0.15 0.45
     [img_ok ''a.jpg'' (Some []), img_bad ''b.JPG'' (Raised ''RuntimeError''),
      img_ok ''c.png'' (Some [det 0.9]), img_ok ''notes.txt'' None] {} {}) \<and>
   ''c.png'' \<notin> UNLABELED_DIR (stage_select 0.15 0.45
     [img_ok ''a.jpg'' (Some []), img_bad ''b.JPG'' (Raised ''RuntimeError''),
      img_ok ''c.png'' (Some [det 0.9]), img_ok ''notes.txt'' None] {} {})"
proof -
  let ?A = "img_ok ''a.jpg'' (Some [])"
  let ?X = "img_bad ''b.JPG'' (Raised ''RuntimeError'')"
  let ?C = "img_ok ''c.png'' (Some [det 0.9])"
  let ?L = "[?A, ?X, ?C, img_ok ''notes.txt'' None]"
  have h1: "filter (\<lambda>p. is_image (img_name p)) ?L = [?A] @ ?X # [?C]"
    by (simp add: img_ok_def img_bad_def is_image_samples)
  have h2: "distinct (map img_name ?L)"
    by (simp add: img_ok_def img_bad_def)
  have h3: "\<forall>i \<in> set ([?A] @ [?C]). raised 0.15 0.45 i = None"
    by (simp add: raised_img_ok_dets)
  have h4: "raised 0.15 0.45 ?X = Some (Raised ''RuntimeError'')"
    by (rule raised_img_bad)
  have names: "img_name ?A = ''a.jpg''" "img_name ?X = ''b.JPG''" "img_name ?C = ''c.png''"
    by (simp_all add: img_ok_def img_bad_def)
  from stage_select_error_isolation [OF h1 h2 h3 h4, of "{}" "{}"]
  show ?thesis
    using h1 h2 h3 h4 by (simp add: names)
qed

text \<open>
  C6. Triage at the boundaries, with \<open>conf_low = 0.15\<close> and \<open>conf_high = 0.45\<close>, for an image
  file of the unlabeled directory whose copy (and label write) does not raise: a sole
  detection of confidence exactly \<open>0.45\<close> routes \<open>to_label\<close>; a sole detection of confidence
  \<open>0.451\<close> routes \<open>autolabeled\<close>, image and label file landing in the autolabeled pool; two
  detections of confidences \<open>0.80\<close> and \<open>0.75\<close> (margin \<open>0.05\<close>) route \<open>to_label\<close>.
\<close>

theorem triage_boundaries:
  "(img1 \<in> set listing \<and> is_image (img_name img1) \<and> predict img1 = Inr (Some ds1) \<and>
    map conf ds1 = [0.45] \<and> copy_exn img1 = None \<longrightarrow>
      filter (\<lambda>r. route r \<noteq> ''error'') (log_rows 0.15 0.45 img1) =
        [\<lparr>rfile = img_name img1, route = ''to_label'', reason = Uncertain 0.45 0.45 0.45\<rparr>] \<and>
      \<lparr>rfile = img_name img1, route = ''to_label'', reason = Uncertain 0.45 0.45 0.45\<rparr>
        \<in> set (rows (stage_select 0.15 0.45 listing tld ald)) \<and>
      img_name img1 \<in> TO_LABEL_DIR (stage_select 0.15 0.45 listing tld ald)) \<and>
   (img2 \<in> set listing \<and> is_image (img_name img2) \<and> predict img2 = Inr (Some ds2) \<and>
    map conf ds2 = [0.451] \<and> copy_exn img2 = None \<and> write_exn img2 = None \<longrightarrow>
      filter (\<lambda>r. route r \<noteq> ''error'') (log_rows 0.15 0.45 img2) =
        [\<lparr>rfile = img_name img2, route = ''autolabeled'', reason = Confident 0.451\<rparr>] \<and>
      \<lparr>rfile = img_name img2, route = ''autolabeled'', reason = Confident 0.451\<rparr>
        \<in> set (rows (stage_select 0.15 0.45 listing tld ald)) \<and>
      img_name img2 \<in> AUTOLABELED_DIR (stage_select 0.15 0.45 listing tld ald) \<and>
      stem (img_name img2) @ ''.txt'' \<in> AUTOLABELED_DIR (stage_select 0.15 0.45 listing tld ald)) \<and>
   (img3 \<in> set listing \<and> is_image (img_name img3) \<and> predict img3 = Inr (Some ds3) \<and>
    (map conf ds3 = [0.80, 0.75] \<or> map conf ds3 = [0.75, 0.80]) \<and> copy_exn img3 = None \<longrightarrow>
      filter (\<lambda>r. route r \<noteq> ''error'') (log_rows 0.15 0.45 img3) =
        [\<lparr>rfile = img_name img3, route = ''to_label'', reason = Uncertain 0.80 0.775 0.05\<rparr>] \<and>
      \<lparr>rfile = img_name img3, route = ''to_label'', reason = Uncertain 0.80 0.775 0.05\<rparr>
        \<in> set (rows (stage_select 0.15 0.45 listing tld ald)) \<and>
      img_name img3 \<in> TO_LABEL_DIR (stage_select 0.15 0.45 listing tld ald))"
proof (intro conjI impI)
  assume h: "img1 \<in> set listing \<and> is_image (img_name img1) \<and> predict img1 = Inr (Some ds1) \<and>
    map conf ds1 = [0.45] \<and> copy_exn img1 = None"
  then have in_l: "img1 \<in> set listing" and im: "is_image (img_name img1)"
    by simp_all
  from h have p: "predict img1 = Inr (Some ds1)" and m: "map conf ds1 = [0.45]"
    by simp_all
  note body = sole_detection_body [OF p m] uncertain_def
  have r: "rows (fst (try_body 0.15 0.45 img1 empty_state)) =
      [\<lparr>rfile = img_name img1, route = ''to_label'', reason = Uncertain 0.45 0.45 0.45\<rparr>]"
    using h by (simp add: body move_to_label_fields empty_state_def)
  have d: "img_name img1 \<in> TO_LABEL_DIR (fst (try_body 0.15 0.45 img1 empty_state))"
    using h by (simp add: body move_to_label_fields)
  show "filter (\<lambda>r. route r \<noteq> ''error'') (log_rows 0.15 0.45 img1) =
        [\<lparr>rfile = img_name img1, route = ''to_label'', reason = Uncertain 0.45 0.45 0.45\<rparr>]"
    by (simp only: log_rows_routes r)
  show "\<lparr>rfile = img_name img1, route = ''to_label'', reason = Uncertain 0.45 0.45 0.45\<rparr>
        \<in> set (rows (stage_select 0.15 0.45 listing tld ald))"
    by (rule stage_select_rows_mem [OF in_l im], unfold r, simp)
  show "img_name img1 \<in> TO_LABEL_DIR (stage_select 0.15 0.45 listing tld ald)"
    using h d stage_select_pool_mem [of img1 listing "0.15" "0.45" tld ald] by auto
next
  assume h: "img2 \<in> set listing \<and> is_image (img_name img2) \<and> predict img2 = Inr (Some ds2) \<and>
    map conf ds2 = [0.451] \<and> copy_exn img2 = None \<and> write_exn img2 = None"
  then have in_l: "img2 \<in> set listing" and im: "is_image (img_name img2)"
    by simp_all
  from h have p: "predict img2 = Inr (Some ds2)" and m: "map conf ds2 = [0.451]"
    by simp_all
  note body = sole_detection_body [OF p m] uncertain_def
  have r: "rows (fst (try_body 0.15 0.45 img2 empty_state)) =
      [\<lparr>rfile = img_name img2, route = ''autolabeled'', reason = Confident 0.451\<rparr>]"
    using h by (simp add: body auto_label_fields empty_state_def)
  have d: "img_name img2 \<in> AUTOLABELED_DIR (fst (try_body 0.15 0.45 img2 empty_state))"
      "stem (img_name img2) @ ''.txt'' \<in> AUTOLABELED_DIR (fst (try_body 0.15 0.45 img2 empty_state))"
    using h by (simp_all add: body auto_label_fields)
  show "filter (\<lambda>r. route r \<noteq> ''error'') (log_rows 0.15 0.45 img2) =
        [\<lparr>rfile = img_name img2, route = ''autolabeled'', reason = Confident 0.451\<rparr>]"
    by (simp only: log_rows_routes r)
  show "\<lparr>rfile = img_name img2, route = ''autolabeled'', reason = Confident 0.451\<rparr>
        \<in> set (rows (stage_select 0.15 0.45 listing tld ald))"
    by (rule stage_select_rows_mem [OF in_l im], unfold r, simp)
  show "img_name img2 \<in> AUTOLABELED_DIR (stage_select 0.15 0.45 listing tld ald)"
    using h d stage_select_pool_mem [of img2 listing "0.15" "0.45" tld ald] by auto
  show "stem (img_name img2) @ ''.txt'' \<in> AUTOLABELED_DIR (stage_select 0.15 0.45 listing tld ald)"
    using h d stage_select_pool_mem [of img2 listing "0.15" "0.45" tld ald] by auto
next
  assume h: "img3 \<in> set listing \<and> is_image (img_name img3) \<and> predict img3 = Inr (Some ds3) \<and>
    (map conf ds3 = [0.80, 0.75] \<or> map conf ds3 = [0.75, 0.80]) \<and> copy_exn img3 = None"
  then have in_l: "img3 \<in> set listing" and im: "is_image (img_name img3)"
    by simp_all
  from h have p: "predict img3 = Inr (Some ds3)"
    and m: "map conf ds3 = [0.80, 0.75] \<or> map conf ds3 = [0.75, 0.80]"
    by simp_all
  have body: "try_body 0.15 0.45 img3 s = move_to_label img3 (Uncertain 0.80 0.775 0.05) s" for s
    using m
  proof
    assume "map conf ds3 = [0.80, 0.75]"
    from two_detections_body [OF p this, of "0.15" "0.45" s] show ?thesis
      by (simp add: uncertain_def)
  next
    assume "map conf ds3 = [0.75, 0.80]"
    from two_detections_body [OF p this, of "0.15" "0.45" s] show ?thesis
      by (simp add: uncertain_def)
  qed
  have r: "rows (fst (try_body 0.15 0.45 img3 empty_state)) =
      [\<lparr>rfile = img_name img3, route = ''to_label'', reason = Uncertain 0.80 0.775 0.05\<rparr>]"
    unfolding body using h by (simp add: move_to_label_fields empty_state_def)
  have d: "img_name img3 \<in> TO_LABEL_DIR (fst (try_body 0.15 0.45 img3 empty_state))"
    unfolding body using h by (simp add: move_to_label_fields)
  show "filter (\<lambda>r. route r \<noteq> ''error'') (log_rows 0.15 0.45 img3) =
        [\<lparr>rfile = img_name img3, route = ''to_label'', reason = Uncertain 0.80 0.775 0.05\<rparr>]"
    by (simp only: log_rows_routes r)
  show "\<lparr>rfile = img_name img3, route = ''to_label'', reason = Uncertain 0.80 0.775 0.05\<rparr>
        \<in> set (rows (stage_select 0.15 0.45 listing tld ald))"
    by (rule stage_select_rows_mem [OF in_l im], unfold r, simp)
  show "img_name img3 \<in> TO_LABEL_DIR (stage_select 0.15 0.45 listing tld ald)"
    using h d stage_select_pool_mem [of img3 listing "0.15" "0.45" tld ald] by auto
qed

theorem triage_boundaries_witness:
  "img_ok ''a.jpg'' (Some [det 0.45]) \<in> set
     [img_ok ''a.jpg'' (Some [det 0.45]), img_ok ''b.JPG'' (Some [det 0.451]),
      img_ok ''c.png'' (Some [det 0.80, det 0.75])] \<and>
   is_image (img_name (img_ok ''a.jpg'' (Some [det 0.45]))) \<and>
   map conf [det 0.45] = [0.45] \<and>
   map conf [det 0.451] = [0.451] \<and>
   map conf [det 0.80, det 0.75] = [0.80, 0.75] \<and>
   \<lparr>rfile = ''a.jpg'', route = ''to_label'', reason = Uncertain 0.45 0.45 0.45\<rparr>
     \<in> set (rows (stage_select 0.15 0.45
       [img_ok ''a.jpg'' (Some [det 0.45]), img_ok ''b.JPG'' (Some [det 0.451]),
        img_ok ''c.png'' (Some [det 0.80, det 0.75])] {} {})) \<and>
   \<lparr>rfile = ''b.JPG'', route = ''autolabeled'', reason = Confident 0.451\<rparr>
     \<in> set (rows (stage_select 0.15 0.45
       [img_ok ''a.jpg'' (Some [det 0.45]), img_ok ''b.JPG'' (Some [det 0.451]),
        img_ok ''c.png'' (Some [det 0.80, det 0.75])] {} {})) \<and>
   \<lparr>rfile = ''c.png'', route = ''to_label'', reason = Uncertain 0.80 0.775 0.05\<rparr>
     \<in> set (rows (stage_select 0.15 0.45
       [img_ok ''a.jpg'' (Some [det 0.45]), img_ok ''b.JPG'' (Some [det 0.451]),
        img_ok ''c.png'' (Some [det 0.80, det 0.75])] {} {})) \<and>
   ''a.jpg'' \<in> TO_LABEL_DIR (stage_select 0.15 0.45
       [img_ok ''a.jpg'' (Some [det 0.45]), img_ok ''b.JPG'' (Some [det 0.451]),
        img_ok ''c.png'' (Some [det 0.80, det 0.75])] {} {}) \<and>
   ''b.JPG'' \<in> AUTOLABELED_DIR (stage_select 0.15 0.45
       [img_ok ''a.jpg'' (Some [det 0.45]), img_ok ''b.JPG'' (Some [det 0.451]),
        img_ok ''c.png'' (Some [det 0.80, det 0.75])] {} {}) \<and>
   ''c.png'' \<in> TO_LABEL_DIR (stage_select 0.15 0.45
       [img_ok ''a.jpg'' (Some [det 0.45]), img_ok ''b.JPG'' (Some [det 0.451]),
        img_ok ''c.png'' (Some [det 0.80, det 0.75])] {} {})"
  using triage_boundaries [where ?img1.0 = "img_ok ''a.jpg'' (Some [det 0.45])"
      and ?ds1.0 = "[det 0.45]"
      and ?img2.0 = "img_ok ''b.JPG'' (Some [det 0.451])" and ?ds2.0 = "[det 0.451]"
      and ?img3.0 = "img_ok ''c.png'' (Some [det 0.80, det 0.75])"
      and ?ds3.0 = "[det 0.80, det 0.75]"
      and listing = "[img_ok ''a.jpg'' (Some [det 0.45]), img_ok ''b.JPG'' (Some [det 0.451]),
        img_ok ''c.png'' (Some [det 0.80, det 0.75])]" and tld = "{}" and ald = "{}"]
  by (simp add: img_ok_def det_def is_image_samples)

text \<open>
  C7. For \<open>conf_low < conf_high\<close> the three-clause predicate of the code equals the collapsed
  predicate \<open>max_conf \<le> conf_high \<or> margin < 0.10\<close>, and an image with at least one detection
  whose copy and label write do not raise gets the route \<open>to_label\<close> exactly when the collapsed
  predicate holds of its highest confidence and margin, \<open>autolabeled\<close> otherwise.
\<close>

theorem uncertain_collapsed_equiv:
  assumes "conf_low < conf_high"
  shows "uncertain conf_low conf_high max_conf margin = uncertain_collapsed conf_high max_conf margin \<and>
         (predict img = Inr (Some ds) \<and> ds \<noteq> [] \<and> copy_exn img = None \<and> write_exn img = None \<longrightarrow>
            map route (filter (\<lambda>r. route r \<noteq> ''error'') (log_rows conf_low conf_high img)) =
              [if uncertain_collapsed conf_high (max_conf_of (map conf ds))
                    (projr (margin_of (map conf ds)))
               then ''to_label'' else ''autolabeled''])"
proof -
  have eq: "\<And>m g. uncertain conf_low conf_high m g = uncertain_collapsed conf_high m g"
    using assms by (auto simp add: uncertain_def uncertain_collapsed_def)
  show ?thesis
    by (auto simp add: eq log_rows_routes try_body_detections move_to_label_fields
        auto_label_fields empty_state_def)
qed

theorem uncertain_collapsed_equiv_witness:
  "(0.15 :: real) < 0.45 \<and>
   uncertain 0.15 0.45 0.80 0.05 = uncertain_collapsed 0.45 0.80 0.05 \<and>
   predict (img_ok ''a.jpg'' (Some [det 0.80, det 0.75])) = Inr (Some [det 0.80, det 0.75]) \<and>
   copy_exn (img_ok ''a.jpg'' (Some [det 0.80, det 0.75])) = None \<and>
   write_exn (img_ok ''a.jpg'' (Some [det 0.80, det 0.75])) = None \<and>
   uncertain_collapsed 0.45 (max_conf_of (map conf [det 0.80, det 0.75]))
     (projr (margin_of (map conf [det 0.80, det 0.75]))) \<and>
   map route (filter (\<lambda>r. route r \<noteq> ''error'')
     (log_rows 0.15 0.45 (img_ok ''a.jpg'' (Some [det 0.80, det 0.75])))) = [''to_label'']"
proof -
  have lt: "(0.15 :: real) < 0.45" by simp
  have c: "uncertain_collapsed 0.45 (max_conf_of (map conf [det 0.80, det 0.75]))
     (projr (margin_of (map conf [det 0.80, det 0.75])))"
    by (simp add: uncertain_collapsed_def max_conf_of_def margin_of_def det_def)
  from uncertain_collapsed_equiv [OF lt, of "0.80" "0.05"
      "img_ok ''a.jpg'' (Some [det 0.80, det 0.75])" "[det 0.80, det 0.75]"] c
  show ?thesis
    by (simp add: img_ok_def)
qed

text \<open>
  C8. An image file of the unlabeled directory for which inference returns no detections
  (\<^verbatim>\<open>boxes\<close> is \<^verbatim>\<open>None\<close> or empty) and whose copy does not raise is routed \<open>to_label\<close> with the
  reason \<^verbatim>\<open>no_detections\<close>, whatever the thresholds: the row is in the log, the image is in
  the to-label pool, and the rows of the image are the same for any two pairs of thresholds.
\<close>

theorem no_detections_to_label:
  assumes "img \<in> set listing" and "is_image (img_name img)"
      and "predict img = Inr boxes" and "boxes = None \<or> boxes = Some []"
      and "copy_exn img = None"
  shows "filter (\<lambda>r. route r \<noteq> ''error'') (log_rows conf_low conf_high img) =
           [\<lparr>rfile = img_name img, route = ''to_label'', reason = Literal ''no_detections''\<rparr>] \<and>
         \<lparr>rfile = img_name img, route = ''to_label'', reason = Literal ''no_detections''\<rparr>
           \<in> set (rows (stage_select conf_low conf_high listing tld ald)) \<and>
         img_name img \<in> TO_LABEL_DIR (stage_select conf_low conf_high listing tld ald) \<and>
         log_rows conf_low conf_high img = log_rows conf_low' conf_high' img"
proof -
  have body: "\<And>cl ch s. try_body cl ch img s = move_to_label img (Literal ''no_detections'') s"
    using assms(3,4) by (rule try_body_no_detections)
  have r: "\<And>cl ch. rows (fst (try_body cl ch img empty_state)) =
      [\<lparr>rfile = img_name img, route = ''to_label'', reason = Literal ''no_detections''\<rparr>]"
    using assms(5) by (simp add: body move_to_label_fields empty_state_def)
  have d: "img_name img \<in> TO_LABEL_DIR (fst (try_body conf_low conf_high img empty_state))"
    using assms(5) by (simp add: body move_to_label_fields)
  have same: "log_rows conf_low conf_high img = log_rows conf_low' conf_high' img"
    by (simp add: log_rows_alt r raised_def body)
  show ?thesis
    using stage_select_rows_mem [OF assms(1,2), of _ conf_low conf_high tld ald]
      stage_select_pool_mem [OF assms(1,2), of conf_low conf_high tld ald] d same
    by (auto simp add: log_rows_routes r)
qed

theorem no_detections_to_label_witness:
  "img_ok ''a.jpg'' (Some []) \<in> set [img_ok ''a.jpg'' (Some []), img_ok ''notes.txt'' None] \<and>
   is_image (img_name (img_ok ''a.jpg'' (Some []))) \<and>
   predict (img_ok ''a.jpg'' (Some [])) = Inr (Some []) \<and>
   copy_exn (img_ok ''a.jpg'' (Some [])) = None \<and>
   \<lparr>rfile = ''a.jpg'', route = ''to_label'', reason = Literal ''no_detections''\<rparr>
     \<in> set (rows (stage_select 0.15 0.45
          [img_ok ''a.jpg'' (Some []), img_ok ''notes.txt'' None] {} {})) \<and>
   ''a.jpg'' \<in> TO_LABEL_DIR (stage_select 0.15 0.45
          [img_ok ''a.jpg'' (Some []), img_ok ''notes.txt'' None] {} {}) \<and>
   log_rows 0.15 0.45 (img_ok ''a.jpg'' (Some [])) = log_rows 0.90 0.95 (img_ok ''a.jpg'' (Some []))"
proof -
  have h1: "img_ok ''a.jpg'' (Some []) \<in> set [img_ok ''a.jpg'' (Some []), img_ok ''notes.txt'' None]"
    by simp
  have h2: "is_image (img_name (img_ok ''a.jpg'' (Some [])))"
    by (simp add: img_ok_def is_image_samples)
  have h3: "predict (img_ok ''a.jpg'' (Some [])) = Inr (Some [])"
    by (simp add: img_ok_def)
  have h4: "Some [] = None \<or> Some [] = Some ([] :: detection list)"
    by simp
  have h5: "copy_exn (img_ok ''a.jpg'' (Some [])) = None"
    by (simp add: img_ok_def)
  have n: "img_name (img_ok ''a.jpg'' (Some [])) = ''a.jpg''"
    by (simp add: img_ok_def)
  from no_detections_to_label [OF h1 h2 h3 h4 h5, of "0.15" "0.45" "{}" "{}" "0.90" "0.95"]
  show ?thesis
    using h1 h2 h3 h5 unfolding n by blast
qed


text \<open>
  C9. The counters on a batch of one image with no detections whose \<^verbatim>\<open>unlink\<close> raises after
  the copy: the image is counted under \<open>to_label\<close> before the \<^verbatim>\<open>unlink\<close> and again under
  \<open>errors\<close> by the handler, so \<open>scanned = 1\<close> while \<open>to_label + autolabeled + errors = 2\<close>.
  (When no \<^verbatim>\<open>unlink\<close> raises, every scanned image is counted once: lemma
  \<open>stage_select_counted_once\<close>.)
\<close>

theorem stage_select_double_count:
  "scanned (stage_select 0.15 0.45
      [\<lparr>img_name = ''a.jpg'', predict = Inr (Some []), copy_exn = None, write_exn = None,
        unlink_exn = Some (Raised ''PermissionError'')\<rparr>] {} {}) = 1 \<and>
   to_label (stage_select 0.15 0.45
      [\<lparr>img_name = ''a.jpg'', predict = Inr (Some []), copy_exn = None, write_exn = None,
        unlink_exn = Some (Raised ''PermissionError'')\<rparr>] {} {}) = 1 \<and>
   autolabeled (stage_select 0.15 0.45
      [\<lparr>img_name = ''a.jpg'', predict = Inr (Some []), copy_exn = None, write_exn = None,
        unlink_exn = Some (Raised ''PermissionError'')\<rparr>] {} {}) = 0 \<and>
   errors (stage_select 0.15 0.45
      [\<lparr>img_name = ''a.jpg'', predict = Inr (Some []), copy_exn = None, write_exn = None,
        unlink_exn = Some (Raised ''PermissionError'')\<rparr>] {} {}) = 1 \<and>
   rows (stage_select 0.15 0.45
      [\<lparr>img_name = ''a.jpg'', predict = Inr (Some []), copy_exn = None, write_exn = None,
        unlink_exn = Some (Raised ''PermissionError'')\<rparr>] {} {}) =
     [\<lparr>rfile = ''a.jpg'', route = ''to_label'', reason = Literal ''no_detections''\<rparr>,
      \<lparr>rfile = ''a.jpg'', route = ''error'', reason = Repr (Raised ''PermissionError'')\<rparr>]"
  by (simp add: stage_select_def is_image_samples process_def try_body_def move_to_label_def)

section \<open>The claims about ingest\<close>

text \<open>
  C2 (as amended). Of two incoming files with identical bytes but different names, at most
  one is copied into the unlabeled pool during a run, and the hash index holds at most one
  entry for their digest; a pool that held no file with these bytes before the run holds
  at most one file with these bytes after it. Two files with the same name but different digests, ingested in
  successive runs, are both recorded as newly ingested and both digests enter the index
  under that name, but the unlabeled pool holds a single file of that name, with the
  bytes of the later file: the copy replaces the earlier file.
\<close>

theorem stage_ingest_dedup_by_content:
  "(distinct (map fst inc) \<and>
    distinct (map fst (case hash_index of None \<Rightarrow> [] | Some idx \<Rightarrow> idx)) \<and>
    (n1, b) \<in> set inc \<and> (n2, b) \<in> set inc \<and> n1 \<noteq> n2 \<longrightarrow>
      \<not> (n1 \<in> set (new_paths (stage_ingest H inc pool hash_index)) \<and>
         n2 \<in> set (new_paths (stage_ingest H inc pool hash_index))) \<and>
      length (filter (\<lambda>p. fst p = H b) (seen_hashes (stage_ingest H inc pool hash_index))) \<le> 1 \<and>
      (b \<notin> snd ` set pool \<longrightarrow>
         length (filter (\<lambda>p. snd p = b)
           (unlabeled_files (stage_ingest H inc pool hash_index))) \<le> 1)) \<and>
   (is_image n \<and> distinct (map fst pool) \<and> H b1 \<noteq> H b2 \<and>
    H b1 \<notin> fst ` set (case hash_index of None \<Rightarrow> [] | Some idx \<Rightarrow> idx) \<and>
    H b2 \<notin> fst ` set (case hash_index of None \<Rightarrow> [] | Some idx \<Rightarrow> idx) \<longrightarrow>
      new_paths (stage_ingest H [(n, b1)] pool hash_index) = [n] \<and>
      new_paths (stage_ingest H [(n, b2)]
        (unlabeled_files (stage_ingest H [(n, b1)] pool hash_index))
        (Some (seen_hashes (stage_ingest H [(n, b1)] pool hash_index)))) = [n] \<and>
      map_of (seen_hashes (stage_ingest H [(n, b2)]
        (unlabeled_files (stage_ingest H [(n, b1)] pool hash_index))
        (Some (seen_hashes (stage_ingest H [(n, b1)] pool hash_index))))) (H b1) = Some n \<and>
      map_of (seen_hashes (stage_ingest H [(n, b2)]
        (unlabeled_files (stage_ingest H [(n, b1)] pool hash_index))
        (Some (seen_hashes (stage_ingest H [(n, b1)] pool hash_index))))) (H b2) = Some n \<and>
      filter (\<lambda>p. fst p = n) (unlabeled_files (stage_ingest H [(n, b2)]
        (unlabeled_files (stage_ingest H [(n, b1)] pool hash_index))
        (Some (seen_hashes (stage_ingest H [(n, b1)] pool hash_index))))) = [(n, b2)])"
proof (intro conjI impI)
  assume h: "distinct (map fst inc) \<and>
    distinct (map fst (case hash_index of None \<Rightarrow> [] | Some idx \<Rightarrow> idx)) \<and>
    (n1, b) \<in> set inc \<and> (n2, b) \<in> set inc \<and> n1 \<noteq> n2"
  then show "\<not> (n1 \<in> set (new_paths (stage_ingest H inc pool hash_index)) \<and>
         n2 \<in> set (new_paths (stage_ingest H inc pool hash_index)))"
    using new_paths_unique_content [of inc n1 b n2 H pool hash_index] by blast
  show "length (filter (\<lambda>p. fst p = H b) (seen_hashes (stage_ingest H inc pool hash_index))) \<le> 1"
    using h by (intro filter_key_distinct seen_hashes_distinct) simp
  assume "b \<notin> snd ` set pool"
  then show "length (filter (\<lambda>p. snd p = b)
           (unlabeled_files (stage_ingest H inc pool hash_index))) \<le> 1"
    by (rule stage_ingest_pool_count)
next
  assume h: "is_image n \<and> distinct (map fst pool) \<and> H b1 \<noteq> H b2 \<and>
    H b1 \<notin> fst ` set (case hash_index of None \<Rightarrow> [] | Some idx \<Rightarrow> idx) \<and>
    H b2 \<notin> fst ` set (case hash_index of None \<Rightarrow> [] | Some idx \<Rightarrow> idx)"
  define idx0 where "idx0 = (case hash_index of None \<Rightarrow> [] | Some idx \<Rightarrow> idx)"
  have first: "stage_ingest H [(n, b1)] pool hash_index =
     \<lparr>unlabeled_files = AList.update n b1 pool,
      seen_hashes = idx0 @ [(H b1, n)], new_paths = [n]\<rparr>"
    using h by (simp add: stage_ingest_single idx0_def)
  have second: "stage_ingest H [(n, b2)]
        (unlabeled_files (stage_ingest H [(n, b1)] pool hash_index))
        (Some (seen_hashes (stage_ingest H [(n, b1)] pool hash_index))) =
     \<lparr>unlabeled_files = AList.update n b2 (AList.update n b1 pool),
      seen_hashes = idx0 @ [(H b1, n), (H b2, n)], new_paths = [n]\<rparr>"
  proof -
    have "H b2 \<notin> fst ` set (case Some (idx0 @ [(H b1, n)]) of None \<Rightarrow> [] | Some idx \<Rightarrow> idx)"
      using h by (auto simp add: idx0_def)
    with h have "stage_ingest H [(n, b2)] (AList.update n b1 pool) (Some (idx0 @ [(H b1, n)])) =
      \<lparr>unlabeled_files = AList.update n b2 (AList.update n b1 pool),
       seen_hashes = (case Some (idx0 @ [(H b1, n)]) of None \<Rightarrow> [] | Some idx \<Rightarrow> idx) @ [(H b2, n)],
       new_paths = [n]\<rparr>"
      by (intro stage_ingest_single) simp_all
    then show ?thesis
      unfolding first by simp
  qed
  have k1: "map_of idx0 (H b1) = None" and k2: "map_of idx0 (H b2) = None"
    using h by (simp_all add: idx0_def [symmetric] map_of_eq_None_iff)
  show "new_paths (stage_ingest H [(n, b1)] pool hash_index) = [n]"
    by (simp add: first)
  show "new_paths (stage_ingest H [(n, b2)]
        (unlabeled_files (stage_ingest H [(n, b1)] pool hash_index))
        (Some (seen_hashes (stage_ingest H [(n, b1)] pool hash_index)))) = [n]"
    unfolding second by simp
  show "map_of (seen_hashes (stage_ingest H [(n, b2)]
        (unlabeled_files (stage_ingest H [(n, b1)] pool hash_index))
        (Some (seen_hashes (stage_ingest H [(n, b1)] pool hash_index))))) (H b1) = Some n"
    unfolding second using h by (simp add: map_add_def k1)
  show "map_of (seen_hashes (stage_ingest H [(n, b2)]
        (unlabeled_files (stage_ingest H [(n, b1)] pool hash_index))
        (Some (seen_hashes (stage_ingest H [(n, b1)] pool hash_index))))) (H b2) = Some n"
    unfolding second using h by (simp add: map_add_def k2)
  show "filter (\<lambda>p. fst p = n) (unlabeled_files (stage_ingest H [(n, b2)]
        (unlabeled_files (stage_ingest H [(n, b1)] pool hash_index))
        (Some (seen_hashes (stage_ingest H [(n, b1)] pool hash_index))))) = [(n, b2)]"
    unfolding second using h
    by (simp add: filter_key_present distinct_update update_conv')
qed

theorem stage_ingest_dedup_by_content_witness:
  "distinct (map fst [(''a.jpg'', ''xx''), (''b.JPG'', ''xx'')]) \<and>
   (''a.jpg'', ''xx'') \<in> set [(''a.jpg'', ''xx''), (''b.JPG'', ''xx'')] \<and>
   (''b.JPG'', ''xx'') \<in> set [(''a.jpg'', ''xx''), (''b.JPG'', ''xx'')] \<and>
   ''a.jpg'' \<noteq> ''b.JPG'' \<and>
   \<not> (''a.jpg'' \<in> set (new_paths (stage_ingest id [(''a.jpg'', ''xx''), (''b.JPG'', ''xx'')] [] None)) \<and>
      ''b.JPG'' \<in> set (new_paths (stage_ingest id [(''a.jpg'', ''xx''), (''b.JPG'', ''xx'')] [] None))) \<and>
   length (filter (\<lambda>p. fst p = id ''xx'')
     (seen_hashes (stage_ingest id [(''a.jpg'', ''xx''), (''b.JPG'', ''xx'')] [] None))) \<le> 1 \<and>
   ''xx'' \<notin> snd ` set ([] :: (string \<times> bytes) list) \<and>
   length (filter (\<lambda>p. snd p = ''xx'')
     (unlabeled_files (stage_ingest id [(''a.jpg'', ''xx''), (''b.JPG'', ''xx'')] [] None))) \<le> 1 \<and>
   is_image ''a.jpg'' \<and> id ''first'' \<noteq> id ''second'' \<and>
   new_paths (stage_ingest id [(''a.jpg'', ''first'')] [] None) = [''a.jpg''] \<and>
   new_paths (stage_ingest id [(''a.jpg'', ''second'')]
      (unlabeled_files (stage_ingest id [(''a.jpg'', ''first'')] [] None))
      (Some (seen_hashes (stage_ingest id [(''a.jpg'', ''first'')] [] None)))) = [''a.jpg''] \<and>
   map_of (seen_hashes (stage_ingest id [(''a.jpg'', ''second'')]
      (unlabeled_files (stage_ingest id [(''a.jpg'', ''first'')] [] None))
      (Some (seen_hashes (stage_ingest id [(''a.jpg'', ''first'')] [] None))))) (id ''first'') =
     Some ''a.jpg'' \<and>
   map_of (seen_hashes (stage_ingest id [(''a.jpg'', ''second'')]
      (unlabeled_files (stage_ingest id [(''a.jpg'', ''first'')] [] None))
      (Some (seen_hashes (stage_ingest id [(''a.jpg'', ''first'')] [] None))))) (id ''second'') =
     Some ''a.jpg'' \<and>
   filter (\<lambda>p. fst p = ''a.jpg'') (unlabeled_files (stage_ingest id [(''a.jpg'', ''second'')]
      (unlabeled_files (stage_ingest id [(''a.jpg'', ''first'')] [] None))
      (Some (seen_hashes (stage_ingest id [(''a.jpg'', ''first'')] [] None))))) =
     [(''a.jpg'', ''second'')]"
  using stage_ingest_dedup_by_content [where H = id
      and inc = "[(''a.jpg'', ''xx''), (''b.JPG'', ''xx'')]" and pool = "[]"
      and hash_index = None and ?n1.0 = "''a.jpg''" and ?n2.0 = "''b.JPG''" and b = "''xx''"
      and n = "''a.jpg''" and ?b1.0 = "''first''" and ?b2.0 = "''second''"]
  by (simp add: is_image_samples)

text \<open>
  C2 as stated fails in its second half: after ingesting \<^verbatim>\<open>a.jpg\<close> with the bytes \<open>first\<close>
  and then \<^verbatim>\<open>a.jpg\<close> with the bytes \<open>second\<close> (the digest taken injective), the unlabeled
  pool holds only the second file.
\<close>

theorem same_name_overwrites_counterexample:
  "unlabeled_files (stage_ingest id [(''a.jpg'', ''second'')]
      (unlabeled_files (stage_ingest id [(''a.jpg'', ''first'')] [] None))
      (Some (seen_hashes (stage_ingest id [(''a.jpg'', ''first'')] [] None)))) =
     [(''a.jpg'', ''second'')] \<and>
   (''a.jpg'', ''first'') \<notin> set (unlabeled_files (stage_ingest id [(''a.jpg'', ''second'')]
      (unlabeled_files (stage_ingest id [(''a.jpg'', ''first'')] [] None))
      (Some (seen_hashes (stage_ingest id [(''a.jpg'', ''first'')] [] None))))) \<and>
   new_paths (stage_ingest id [(''a.jpg'', ''second'')]
      (unlabeled_files (stage_ingest id [(''a.jpg'', ''first'')] [] None))
      (Some (seen_hashes (stage_ingest id [(''a.jpg'', ''first'')] [] None)))) = [''a.jpg'']"
  by (simp add: stage_ingest_def ingest_one_def Let_def is_image_samples)

text \<open>
  C4. Ingest is idempotent. A file whose digest is already in the index leaves the loop
  state as it is (no copy, no index entry, no new path). A second run over the same
  incoming files, or over any files whose bytes were among those of the first run's image
  files, under whatever names, changes neither the unlabeled pool nor the index and
  reports no new file. When some bytes are in neither the pool nor the index, ingesting
  them under a name \<open>n\<close> and again under a name \<open>n'\<close> leaves exactly one file with these
  bytes in the pool and exactly one index entry for their digest.
\<close>

theorem stage_ingest_idempotent:
  "(H (snd ip) \<in> fst ` set (seen_hashes s) \<longrightarrow> ingest_one H ip s = s) \<and>
   stage_ingest H inc (unlabeled_files (stage_ingest H inc pool hash_index))
       (Some (seen_hashes (stage_ingest H inc pool hash_index))) =
     (stage_ingest H inc pool hash_index)\<lparr>new_paths := []\<rparr> \<and>
   ((\<forall>ip \<in> set inc2. is_image (fst ip) \<longrightarrow>
       (\<exists>ip' \<in> set inc. is_image (fst ip') \<and> snd ip' = snd ip)) \<longrightarrow>
     stage_ingest H inc2 (unlabeled_files (stage_ingest H inc pool hash_index))
         (Some (seen_hashes (stage_ingest H inc pool hash_index))) =
       (stage_ingest H inc pool hash_index)\<lparr>new_paths := []\<rparr>) \<and>
   (is_image n \<and> is_image n' \<and> b \<notin> snd ` set pool \<and>
    H b \<notin> fst ` set (case hash_index of None \<Rightarrow> [] | Some idx \<Rightarrow> idx) \<longrightarrow>
      filter (\<lambda>p. snd p = b)
        (unlabeled_files (stage_ingest H [(n', b)]
           (unlabeled_files (stage_ingest H [(n, b)] pool hash_index))
           (Some (seen_hashes (stage_ingest H [(n, b)] pool hash_index))))) = [(n, b)] \<and>
      filter (\<lambda>p. fst p = H b)
        (seen_hashes (stage_ingest H [(n', b)]
           (unlabeled_files (stage_ingest H [(n, b)] pool hash_index))
           (Some (seen_hashes (stage_ingest H [(n, b)] pool hash_index))))) = [(H b, n)] \<and>
      new_paths (stage_ingest H [(n', b)]
           (unlabeled_files (stage_ingest H [(n, b)] pool hash_index))
           (Some (seen_hashes (stage_ingest H [(n, b)] pool hash_index)))) = [])"
proof (intro conjI impI)
  assume "H (snd ip) \<in> fst ` set (seen_hashes s)"
  then show "ingest_one H ip s = s" by (rule ingest_one_skip_seen)
next
  show "stage_ingest H inc (unlabeled_files (stage_ingest H inc pool hash_index))
       (Some (seen_hashes (stage_ingest H inc pool hash_index))) =
     (stage_ingest H inc pool hash_index)\<lparr>new_paths := []\<rparr>"
    by (rule stage_ingest_rerun) blast
next
  assume "\<forall>ip \<in> set inc2. is_image (fst ip) \<longrightarrow>
       (\<exists>ip' \<in> set inc. is_image (fst ip') \<and> snd ip' = snd ip)"
  then show "stage_ingest H inc2 (unlabeled_files (stage_ingest H inc pool hash_index))
         (Some (seen_hashes (stage_ingest H inc pool hash_index))) =
       (stage_ingest H inc pool hash_index)\<lparr>new_paths := []\<rparr>"
    by (rule stage_ingest_rerun)
next
  assume h: "is_image n \<and> is_image n' \<and> b \<notin> snd ` set pool \<and>
    H b \<notin> fst ` set (case hash_index of None \<Rightarrow> [] | Some idx \<Rightarrow> idx)"
  have first: "stage_ingest H [(n, b)] pool hash_index =
     \<lparr>unlabeled_files = AList.update n b pool,
      seen_hashes = (case hash_index of None \<Rightarrow> [] | Some idx \<Rightarrow> idx) @ [(H b, n)],
      new_paths = [n]\<rparr>"
    using h by (simp add: stage_ingest_single)
  have second: "stage_ingest H [(n', b)]
           (unlabeled_files (stage_ingest H [(n, b)] pool hash_index))
           (Some (seen_hashes (stage_ingest H [(n, b)] pool hash_index))) =
       (stage_ingest H [(n, b)] pool hash_index)\<lparr>new_paths := []\<rparr>"
    using h by (intro stage_ingest_rerun) simp
  have nokey: "filter (\<lambda>p. fst p = H b) (case hash_index of None \<Rightarrow> [] | Some idx \<Rightarrow> idx) = []"
    using h by (force simp add: filter_empty_conv)
  show "filter (\<lambda>p. snd p = b)
        (unlabeled_files (stage_ingest H [(n', b)]
           (unlabeled_files (stage_ingest H [(n, b)] pool hash_index))
           (Some (seen_hashes (stage_ingest H [(n, b)] pool hash_index))))) = [(n, b)]"
    unfolding second using h by (simp add: first filter_snd_update)
  show "filter (\<lambda>p. fst p = H b)
        (seen_hashes (stage_ingest H [(n', b)]
           (unlabeled_files (stage_ingest H [(n, b)] pool hash_index))
           (Some (seen_hashes (stage_ingest H [(n, b)] pool hash_index))))) = [(H b, n)]"
    unfolding second by (simp add: first nokey)
  show "new_paths (stage_ingest H [(n', b)]
           (unlabeled_files (stage_ingest H [(n, b)] pool hash_index))
           (Some (seen_hashes (stage_ingest H [(n, b)] pool hash_index)))) = []"
    unfolding second by simp
qed

theorem stage_ingest_idempotent_witness:
  "id (snd (''b.JPG'', ''xx'')) \<in> fst ` set (seen_hashes
      \<lparr>unlabeled_files = [(''a.jpg'', ''xx'')], seen_hashes = [(''xx'', ''a.jpg'')],
       new_paths = [''a.jpg'']\<rparr>) \<and>
   ingest_one id (''b.JPG'', ''xx'')
      \<lparr>unlabeled_files = [(''a.jpg'', ''xx'')], seen_hashes = [(''xx'', ''a.jpg'')],
       new_paths = [''a.jpg'']\<rparr> =
      \<lparr>unlabeled_files = [(''a.jpg'', ''xx'')], seen_hashes = [(''xx'', ''a.jpg'')],
       new_paths = [''a.jpg'']\<rparr> \<and>
   stage_ingest id [(''a.jpg'', ''xx''), (''b.JPG'', ''xx''), (''notes.txt'', ''t'')]
     (unlabeled_files (stage_ingest id
        [(''a.jpg'', ''xx''), (''b.JPG'', ''xx''), (''notes.txt'', ''t'')] [] None))
     (Some (seen_hashes (stage_ingest id
        [(''a.jpg'', ''xx''), (''b.JPG'', ''xx''), (''notes.txt'', ''t'')] [] None))) =
     (stage_ingest id [(''a.jpg'', ''xx''), (''b.JPG'', ''xx''), (''notes.txt'', ''t'')] [] None)
       \<lparr>new_paths := []\<rparr> \<and>
   stage_ingest id [(''c.png'', ''xx'')]
     (unlabeled_files (stage_ingest id
        [(''a.jpg'', ''xx''), (''b.JPG'', ''xx''), (''notes.txt'', ''t'')] [] None))
     (Some (seen_hashes (stage_ingest id
        [(''a.jpg'', ''xx''), (''b.JPG'', ''xx''), (''notes.txt'', ''t'')] [] None))) =
     (stage_ingest id [(''a.jpg'', ''xx''), (''b.JPG'', ''xx''), (''notes.txt'', ''t'')] [] None)
       \<lparr>new_paths := []\<rparr> \<and>
   is_image ''a.jpg'' \<and> is_image ''c.png'' \<and>
   filter (\<lambda>p. snd p = ''xx'')
     (unlabeled_files (stage_ingest id [(''c.png'', ''xx'')]
        (unlabeled_files (stage_ingest id [(''a.jpg'', ''xx'')] [] None))
        (Some (seen_hashes (stage_ingest id [(''a.jpg'', ''xx'')] [] None))))) =
     [(''a.jpg'', ''xx'')] \<and>
   filter (\<lambda>p. fst p = id ''xx'')
     (seen_hashes (stage_ingest id [(''c.png'', ''xx'')]
        (unlabeled_files (stage_ingest id [(''a.jpg'', ''xx'')] [] None))
        (Some (seen_hashes (stage_ingest id [(''a.jpg'', ''xx'')] [] None))))) =
     [(id ''xx'', ''a.jpg'')] \<and>
   new_paths (stage_ingest id [(''c.png'', ''xx'')]
        (unlabeled_files (stage_ingest id [(''a.jpg'', ''xx'')] [] None))
        (Some (seen_hashes (stage_ingest id [(''a.jpg'', ''xx'')] [] None)))) = []"
  using stage_ingest_idempotent [where H = id and ip = "(''b.JPG'', ''xx'')"
      and s = "\<lparr>unlabeled_files = [(''a.jpg'', ''xx'')], seen_hashes = [(''xx'', ''a.jpg'')],
                new_paths = [''a.jpg'']\<rparr>"
      and inc = "[(''a.jpg'', ''xx''), (''b.JPG'', ''xx''), (''notes.txt'', ''t'')]"
      and pool = "[]" and hash_index = None and ?inc2.0 = "[(''c.png'', ''xx'')]"
      and n = "''a.jpg''" and n' = "''c.png''" and b = "''xx''"]
  by (simp add: is_image_samples)

text \<open>
  C10. Ingest only grows the index: the index written at the end of a run is the loaded
  index followed by one new entry per newly ingested file, in order, with the new keys
  distinct and apart from the loaded ones; so every loaded entry is still there with its
  value.
\<close>

theorem stage_ingest_index_grows:
  "\<exists>ext.
     seen_hashes (stage_ingest H inc pool hash_index) =
       (case hash_index of None \<Rightarrow> [] | Some idx \<Rightarrow> idx) @ ext \<and>
     map snd ext = new_paths (stage_ingest H inc pool hash_index) \<and>
     distinct (map fst ext) \<and>
     fst ` set ext \<inter> fst ` set (case hash_index of None \<Rightarrow> [] | Some idx \<Rightarrow> idx) = {} \<and>
     map_of (case hash_index of None \<Rightarrow> [] | Some idx \<Rightarrow> idx)
       \<subseteq>\<^sub>m map_of (seen_hashes (stage_ingest H inc pool hash_index)) \<and>
     length (seen_hashes (stage_ingest H inc pool hash_index)) =
       length (case hash_index of None \<Rightarrow> [] | Some idx \<Rightarrow> idx) +
       length (new_paths (stage_ingest H inc pool hash_index))"
proof -
  obtain nf where nf:
    "new_paths (stage_ingest H inc pool hash_index) = map fst nf"
    "seen_hashes (stage_ingest H inc pool hash_index) =
       (case hash_index of None \<Rightarrow> [] | Some idx \<Rightarrow> idx) @ map (\<lambda>p. (H (snd p), fst p)) nf"
    "distinct (map (\<lambda>p. H (snd p)) nf)"
    "(\<lambda>p. H (snd p)) ` set nf \<inter>
       fst ` set (case hash_index of None \<Rightarrow> [] | Some idx \<Rightarrow> idx) = {}"
    using stage_ingest_new [of H inc pool hash_index] by blast
  define ext where "ext = map (\<lambda>p. (H (snd p), fst p)) nf"
  have e1: "map snd ext = map fst nf" and e2: "map fst ext = map (\<lambda>p. H (snd p)) nf"
    by (simp_all add: ext_def comp_def)
  have e4: "length ext = length nf"
    by (simp add: ext_def)
  have e3: "fst ` set ext = (\<lambda>p. H (snd p)) ` set nf"
    by (force simp add: ext_def)
  have disj: "fst ` set ext \<inter> fst ` set (case hash_index of None \<Rightarrow> [] | Some idx \<Rightarrow> idx) = {}"
    using nf(4) by (simp only: e3)
  show ?thesis
    apply (rule exI [of _ ext])
    using nf(1,3) disj map_le_append [of "case hash_index of None \<Rightarrow> [] | Some idx \<Rightarrow> idx" ext]
    by (simp add: nf(2) ext_def [symmetric] e1 e2 e4)
qed


section \<open>The claim about dataset assembly\<close>




end
